theory Spec2Isabelle
  imports Complex_Main "HOL-Library.Word" "HOL-Library.Multiset"
begin

section \<open>Machine numbers\<close>

type_synonym u32 = "32 word"

text \<open>
  A single-precision value is NaN, an infinity or a finite number. Every finite
  \<open>float\<close> is a dyadic rational, so the finite values are over-approximated by
  \<open>rat\<close>; \<open>+0\<close> and \<open>-0\<close> compare equal in IEEE 754 and are one value here.
  Comparison is exact in IEEE 754 and is defined below; arithmetic rounds, and the
  rounding operations are taken as a parameter (\<open>fops\<close>).
\<close>

datatype float32 = NaN | NegInf | Fin rat | PosInf

text \<open>The C++ operator \<open><\<close> on \<open>float\<close>: false whenever an operand is NaN.\<close>

fun flt :: "float32 \<Rightarrow> float32 \<Rightarrow> bool" where
  "flt NaN _ = False"
| "flt _ NaN = False"
| "flt NegInf NegInf = False"
| "flt NegInf _ = True"
| "flt (Fin a) (Fin b) = (a < b)"
| "flt (Fin a) PosInf = True"
| "flt (Fin a) NegInf = False"
| "flt PosInf _ = False"

text \<open>The C++ operator \<open>></\<close> on \<open>float\<close>.\<close>

definition fgt :: "float32 \<Rightarrow> float32 \<Rightarrow> bool" where
  "fgt a b = flt b a"

text \<open>
  The rounding arithmetic of the target (\<open>+\<close>, \<open>-\<close>, \<open>*\<close>, \<open>/\<close>, \<open>sqrtf\<close>,
  \<open>rsqrtf\<close>) and the compile-time switch \<open>MADRONA_GPU_MODE\<close>.
\<close>

record fops =
  fadd :: "float32 \<Rightarrow> float32 \<Rightarrow> float32"
  fsub :: "float32 \<Rightarrow> float32 \<Rightarrow> float32"
  fmul :: "float32 \<Rightarrow> float32 \<Rightarrow> float32"
  fdiv :: "float32 \<Rightarrow> float32 \<Rightarrow> float32"
  sqrtf :: "float32 \<Rightarrow> float32"
  rsqrtf :: "float32 \<Rightarrow> float32"
  gpu_mode :: bool

section \<open>math.inl: vectors and bounding boxes\<close>

record Vector3 =
  vx :: float32
  vy :: float32
  vz :: float32

record Quat =
  qw :: float32
  qx :: float32
  qy :: float32
  qz :: float32

record Diag3x3 =
  d0 :: float32
  d1 :: float32
  d2 :: float32

text \<open>\<open>Mat3x4\<close>: four columns.\<close>

record Mat3x4 =
  col0 :: Vector3
  col1 :: Vector3
  col2 :: Vector3
  col3 :: Vector3

record AABB =
  pMin :: Vector3
  pMax :: Vector3

text \<open>\<open>Vector3::operator+=(const Vector3 &)\<close> and \<open>operator+(Vector3, const Vector3 &)\<close>.\<close>

definition v3_add :: "fops \<Rightarrow> Vector3 \<Rightarrow> Vector3 \<Rightarrow> Vector3" where
  "v3_add fp a b =
     \<lparr>vx = fadd fp (vx a) (vx b), vy = fadd fp (vy a) (vy b), vz = fadd fp (vz a) (vz b)\<rparr>"

text \<open>\<open>Vector3::operator-=(const Vector3 &)\<close> and \<open>operator-(Vector3, const Vector3 &)\<close>.\<close>

definition v3_sub :: "fops \<Rightarrow> Vector3 \<Rightarrow> Vector3 \<Rightarrow> Vector3" where
  "v3_sub fp a b =
     \<lparr>vx = fsub fp (vx a) (vx b), vy = fsub fp (vy a) (vy b), vz = fsub fp (vz a) (vz b)\<rparr>"

text \<open>\<open>Vector3::operator*=(float)\<close> and \<open>operator*(Vector3, float)\<close>.\<close>

definition v3_scale :: "fops \<Rightarrow> Vector3 \<Rightarrow> float32 \<Rightarrow> Vector3" where
  "v3_scale fp a b =
     \<lparr>vx = fmul fp (vx a) b, vy = fmul fp (vy a) b, vz = fmul fp (vz a) b\<rparr>"

definition length2 :: "fops \<Rightarrow> Vector3 \<Rightarrow> float32" where
  "length2 fp v =
     fadd fp (fadd fp (fmul fp (vx v) (vx v)) (fmul fp (vy v) (vy v))) (fmul fp (vz v) (vz v))"

definition length_v3 :: "fops \<Rightarrow> Vector3 \<Rightarrow> float32" where
  "length_v3 fp v = sqrtf fp (length2 fp v)"

definition invLength :: "fops \<Rightarrow> Vector3 \<Rightarrow> float32" where
  "invLength fp v =
     (if gpu_mode fp then rsqrtf fp (length2 fp v)
      else fdiv fp (Fin 1) (length_v3 fp v))"

definition normalize_v3 :: "fops \<Rightarrow> Vector3 \<Rightarrow> Vector3" where
  "normalize_v3 fp v = v3_scale fp v (invLength fp v)"

text \<open>\<open>operator*(float, Diag3x3)\<close>: \<open>b *= a\<close>, so the scalar is the right factor.\<close>

definition diag_scale :: "fops \<Rightarrow> float32 \<Rightarrow> Diag3x3 \<Rightarrow> Diag3x3" where
  "diag_scale fp a b = \<lparr>d0 = fmul fp (d0 b) a, d1 = fmul fp (d1 b) a, d2 = fmul fp (d2 b) a\<rparr>"

definition fromTRS :: "fops \<Rightarrow> Vector3 \<Rightarrow> Quat \<Rightarrow> Diag3x3 \<Rightarrow> Mat3x4" where
  "fromTRS fp t r s =
     (let x2 = fmul fp (qx r) (qx r);
          y2 = fmul fp (qy r) (qy r);
          z2 = fmul fp (qz r) (qz r);
          xz = fmul fp (qx r) (qz r);
          xy = fmul fp (qx r) (qy r);
          yz = fmul fp (qy r) (qz r);
          wx = fmul fp (qw r) (qx r);
          wy = fmul fp (qw r) (qy r);
          wz = fmul fp (qw r) (qz r);
          ds = diag_scale fp (Fin 2) s
      in \<lparr>col0 = \<lparr>vx = fsub fp (d0 s) (fmul fp (d0 ds) (fadd fp y2 z2)),
                   vy = fmul fp (d0 ds) (fadd fp xy wz),
                   vz = fmul fp (d0 ds) (fsub fp xz wy)\<rparr>,
          col1 = \<lparr>vx = fmul fp (d1 ds) (fsub fp xy wz),
                   vy = fsub fp (d1 s) (fmul fp (d1 ds) (fadd fp x2 z2)),
                   vz = fmul fp (d1 ds) (fadd fp yz wx)\<rparr>,
          col2 = \<lparr>vx = fmul fp (d2 ds) (fadd fp xz wy),
                   vy = fmul fp (d2 ds) (fsub fp yz wx),
                   vz = fsub fp (d2 s) (fmul fp (d2 ds) (fadd fp x2 y2))\<rparr>,
          col3 = t\<rparr>)"

definition txfmPoint :: "fops \<Rightarrow> Mat3x4 \<Rightarrow> Vector3 \<Rightarrow> Vector3" where
  "txfmPoint fp m p =
     v3_add fp
       (v3_add fp
          (v3_add fp (v3_scale fp (col0 m) (vx p)) (v3_scale fp (col1 m) (vy p)))
          (v3_scale fp (col2 m) (vz p)))
       (col3 m)"

text \<open>\<open>AABB::overlaps\<close>: strict overlap on each of the three axes.\<close>

definition overlaps :: "AABB \<Rightarrow> AABB \<Rightarrow> bool" where
  "overlaps this o' =
     (let a_min = pMin this; a_max = pMax this;
          b_min = pMin o'; b_max = pMax o'
      in flt (vx a_min) (vx b_max) \<and> flt (vx b_min) (vx a_max) \<and>
         flt (vy a_min) (vy b_max) \<and> flt (vy b_min) (vy a_max) \<and>
         flt (vz a_min) (vz b_max) \<and> flt (vz b_min) (vz a_max))"

text \<open>\<open>AABB::expand\<close>: one axis, then the three of them in the order x, y, z.\<close>

definition expand_axis :: "float32 \<Rightarrow> float32 \<times> float32 \<Rightarrow> float32 \<times> float32" where
  "expand_axis p mm =
     (if flt p (fst mm) then (p, snd mm)
      else if fgt p (snd mm) then (fst mm, p)
      else mm)"

definition expand :: "AABB \<Rightarrow> Vector3 \<Rightarrow> AABB" where
  "expand this p =
     (let ex = expand_axis (vx p) (vx (pMin this), vx (pMax this));
          ey = expand_axis (vy p) (vy (pMin this), vy (pMax this));
          ez = expand_axis (vz p) (vz (pMin this), vz (pMax this))
      in \<lparr>pMin = \<lparr>vx = fst ex, vy = fst ey, vz = fst ez\<rparr>,
          pMax = \<lparr>vx = snd ex, vy = snd ey, vz = snd ez\<rparr>\<rparr>)"

definition point :: "Vector3 \<Rightarrow> AABB" where
  "point p = \<lparr>pMin = p, pMax = p\<rparr>"

text \<open>\<open>FLT_MAX\<close>, the largest finite single-precision value, and \<open>AABB::invalid\<close>.\<close>

definition FLT_MAX :: rat where
  "FLT_MAX = 2 ^ 128 - 2 ^ 104"

definition invalid :: AABB where
  "invalid = \<lparr>pMin = \<lparr>vx = Fin FLT_MAX, vy = Fin FLT_MAX, vz = Fin FLT_MAX\<rparr>,
              pMax = \<lparr>vx = Fin (- FLT_MAX), vy = Fin (- FLT_MAX), vz = Fin (- FLT_MAX)\<rparr>\<rparr>"

text \<open>
  \<open>std::clamp(v, lo, hi)\<close>. Its behaviour is undefined when \<open>hi < lo\<close>, which is the
  result \<open>None\<close>; otherwise it is \<open>lo\<close> if \<open>v < lo\<close>, \<open>hi\<close> if \<open>hi < v\<close>, and \<open>v\<close> if
  neither, which is also what \<open>std::min(std::max(v, lo), hi)\<close> gives.
\<close>

definition clamp :: "float32 \<Rightarrow> float32 \<Rightarrow> float32 \<Rightarrow> float32 option" where
  "clamp v lo hi =
     (if flt hi lo then None
      else Some (if flt v lo then lo else if flt hi v then hi else v))"

section \<open>Atomic counters\<close>

text \<open>
  A \<open>std::atomic_uint32_t\<close> is its value. \<open>fetch_add\<close> returns the value held
  before the addition together with the new contents, in one indivisible step.
\<close>

definition fetch_add :: "u32 \<Rightarrow> u32 \<Rightarrow> u32 \<times> u32" where
  "fetch_add cell n = (cell, cell + n)"

definition atomic_load :: "u32 \<Rightarrow> u32" where
  "atomic_load cell = cell"

definition atomic_store :: "u32 \<Rightarrow> u32 \<Rightarrow> u32" where
  "atomic_store cell v = v"

section \<open>simple.cpp: the data of the example simulation\<close>

text \<open>
  The declarations of simple.hpp, as simple.cpp uses them. A heap array is a list
  whose length is the number of elements allocated; an access outside it is
  undefined behaviour in the source and the result \<open>None\<close> here.
\<close>

record SphereObject =
  translation :: Vector3
  rotation :: Quat
  aabb :: AABB

record ContactData =
  normal :: Vector3
  ct_a :: u32
  ct_b :: u32

record SimpleSim =
  worldBounds :: AABB
  sphereObjects :: "SphereObject list"
  contacts :: "ContactData list"
  numSphereObjects :: u32
  numContacts :: u32

record SphereIndex =
  si_world :: u32
  si_offset :: u32

record TestIndex =
  ti_world :: u32
  ti_a :: u32
  ti_b :: u32

record CandidatePair =
  cp_world :: u32
  cp_a :: u32
  cp_b :: u32

text \<open>A System of the task graph, as simple.cpp sees it: its invocation count.\<close>

record SystemBase =
  numInvocations :: u32

record SimManager =
  preprocess :: SystemBase
  broad :: SystemBase
  narrow :: SystemBase
  solver :: SystemBase
  unified :: SystemBase
  sims :: "SimpleSim list"
  sphereIndices :: "SphereIndex list"
  testIndices :: "TestIndex list"
  candidatePairs :: "CandidatePair list"

text \<open>Reading \<open>arr[i]\<close>.\<close>

definition arr_get :: "'a list \<Rightarrow> nat \<Rightarrow> 'a option" where
  "arr_get xs i = (if i < length xs then Some (xs ! i) else None)"

text \<open>Writing \<open>arr[i] = v\<close>.\<close>

definition arr_set :: "'a list \<Rightarrow> nat \<Rightarrow> 'a \<Rightarrow> 'a list option" where
  "arr_set xs i v = (if i < length xs then Some (xs[i := v]) else None)"

text \<open>
  A counted loop \<open>for (i = i0; ...; i++) body(i)\<close> over the indices given, stopping at
  the first fault.
\<close>

primrec for_each :: "nat list \<Rightarrow> (nat \<Rightarrow> 's \<Rightarrow> 's option) \<Rightarrow> 's \<Rightarrow> 's option" where
  "for_each [] body s = Some s"
| "for_each (i # rest) body s =
     (case body i s of None \<Rightarrow> None | Some s' \<Rightarrow> for_each rest body s')"


section \<open>simple.cpp: the systems\<close>

text \<open>
  \<open>Mat3x4::fromTRS\<close> is called with two arguments; the default of the third is
  declared in math.hpp and is the parameter \<open>s\<close> here.
\<close>

definition preprocessObject :: "fops \<Rightarrow> Diag3x3 \<Rightarrow> SimpleSim \<Rightarrow> u32 \<Rightarrow> SimpleSim option" where
  "preprocessObject fp s sim obj_id =
     (case arr_get (sphereObjects sim) (unat obj_id) of
        None \<Rightarrow> None
      | Some object \<Rightarrow>
          (let wb = worldBounds sim;
               t = translation object
           in case clamp (vx t) (vx (pMin wb)) (vx (pMax wb)) of
                None \<Rightarrow> None
              | Some cx \<Rightarrow>
           (case clamp (vy t) (vy (pMin wb)) (vy (pMax wb)) of
                None \<Rightarrow> None
              | Some cy \<Rightarrow>
           (case clamp (vz t) (vz (pMin wb)) (vz (pMax wb)) of
                None \<Rightarrow> None
              | Some cz \<Rightarrow>
           (let t' = \<lparr>vx = cx, vy = cy, vz = cz\<rparr>;
               model_mat = fromTRS fp t' (rotation object) s;
               cube = map (txfmPoint fp model_mat)
                 [\<lparr>vx = Fin (- 1), vy = Fin (- 1), vz = Fin (- 1)\<rparr>,
                  \<lparr>vx = Fin 1, vy = Fin (- 1), vz = Fin (- 1)\<rparr>,
                  \<lparr>vx = Fin 1, vy = Fin 1, vz = Fin (- 1)\<rparr>,
                  \<lparr>vx = Fin (- 1), vy = Fin 1, vz = Fin (- 1)\<rparr>,
                  \<lparr>vx = Fin (- 1), vy = Fin (- 1), vz = Fin 1\<rparr>,
                  \<lparr>vx = Fin 1, vy = Fin (- 1), vz = Fin 1\<rparr>,
                  \<lparr>vx = Fin 1, vy = Fin 1, vz = Fin 1\<rparr>,
                  \<lparr>vx = Fin (- 1), vy = Fin 1, vz = Fin 1\<rparr>];
               box = foldl expand (point (cube ! 0)) (drop 1 cube);
               object' = object\<lparr>translation := t', aabb := box\<rparr>
           in Some (sim\<lparr>sphereObjects := (sphereObjects sim)[unat obj_id := object']\<rparr>))))))"

definition PreprocessSystem_run :: "fops \<Rightarrow> Diag3x3 \<Rightarrow> SimManager \<Rightarrow> u32 \<Rightarrow> SimManager option" where
  "PreprocessSystem_run fp s mgr invocation_offset =
     (let mgr1 = (if invocation_offset = 0
                  then mgr\<lparr>narrow := (narrow mgr)\<lparr>numInvocations :=
                         atomic_store (numInvocations (narrow mgr)) 0\<rparr>\<rparr>
                  else mgr)
      in case arr_get (sphereIndices mgr1) (unat invocation_offset) of
           None \<Rightarrow> None
         | Some sphere_idx \<Rightarrow>
             (case arr_get (sims mgr1) (unat (si_world sphere_idx)) of
                None \<Rightarrow> None
              | Some sim \<Rightarrow>
                  (case preprocessObject fp s sim (si_offset sphere_idx) of
                     None \<Rightarrow> None
                   | Some sim' \<Rightarrow>
                       Some (mgr1\<lparr>sims := (sims mgr1)[unat (si_world sphere_idx) := sim']\<rparr>))))"

text \<open>\<open>compareObjAABBs\<close>: an object never overlaps itself.\<close>

definition compareObjAABBs :: "SimpleSim \<Rightarrow> u32 \<Rightarrow> u32 \<Rightarrow> bool option" where
  "compareObjAABBs sim a_idx b_idx =
     (if a_idx = b_idx then Some False
      else case arr_get (sphereObjects sim) (unat a_idx) of
             None \<Rightarrow> None
           | Some a_obj \<Rightarrow>
               (case arr_get (sphereObjects sim) (unat b_idx) of
                  None \<Rightarrow> None
                | Some b_obj \<Rightarrow> Some (overlaps (aabb a_obj) (aabb b_obj))))"

definition BroadphaseSystem_run :: "SimManager \<Rightarrow> u32 \<Rightarrow> SimManager option" where
  "BroadphaseSystem_run mgr invocation_offset =
     (case arr_get (testIndices mgr) (unat invocation_offset) of
        None \<Rightarrow> None
      | Some test \<Rightarrow>
          (case arr_get (sims mgr) (unat (ti_world test)) of
             None \<Rightarrow> None
           | Some sim \<Rightarrow>
               (case compareObjAABBs sim (ti_a test) (ti_b test) of
                  None \<Rightarrow> None
                | Some overlap \<Rightarrow>
                    if overlap then
                      (let (candidate_idx, cell) = fetch_add (numInvocations (narrow mgr)) 1;
                           mgr1 = mgr\<lparr>narrow := (narrow mgr)\<lparr>numInvocations := cell\<rparr>\<rparr>
                       in case arr_set (candidatePairs mgr1) (unat candidate_idx)
                                 \<lparr>cp_world = ti_world test, cp_a = ti_a test, cp_b = ti_b test\<rparr> of
                            None \<Rightarrow> None
                          | Some cps \<Rightarrow> Some (mgr1\<lparr>candidatePairs := cps\<rparr>))
                    else Some mgr)))"

text \<open>\<open>narrowPhase<use_atomic>\<close>.\<close>

definition narrowPhase :: "bool \<Rightarrow> fops \<Rightarrow> SimpleSim \<Rightarrow> u32 \<Rightarrow> u32 \<Rightarrow> SimpleSim option" where
  "narrowPhase use_atomic fp sim a_idx b_idx =
     (case arr_get (sphereObjects sim) (unat a_idx) of
        None \<Rightarrow> None
      | Some a \<Rightarrow>
          (case arr_get (sphereObjects sim) (unat b_idx) of
             None \<Rightarrow> None
           | Some b \<Rightarrow>
               (let a_pos = translation a;
                    b_pos = translation b;
                    to_b = normalize_v3 fp (v3_sub fp b_pos a_pos);
                    (contact_idx, cell) =
                      (if use_atomic then fetch_add (numContacts sim) 1
                       else (let contact_idx = atomic_load (numContacts sim)
                             in (contact_idx, atomic_store (numContacts sim) (contact_idx + 1))));
                    sim1 = sim\<lparr>numContacts := cell\<rparr>
                in case arr_set (contacts sim1) (unat contact_idx)
                          \<lparr>normal = to_b, ct_a = a_idx, ct_b = b_idx\<rparr> of
                     None \<Rightarrow> None
                   | Some cs \<Rightarrow> Some (sim1\<lparr>contacts := cs\<rparr>))))"

definition NarrowphaseSystem_run :: "fops \<Rightarrow> SimManager \<Rightarrow> u32 \<Rightarrow> SimManager option" where
  "NarrowphaseSystem_run fp mgr invocation_offset =
     (case arr_get (candidatePairs mgr) (unat invocation_offset) of
        None \<Rightarrow> None
      | Some c \<Rightarrow>
          (case arr_get (sims mgr) (unat (cp_world c)) of
             None \<Rightarrow> None
           | Some sim \<Rightarrow>
               (case narrowPhase True fp sim (cp_a c) (cp_b c) of
                  None \<Rightarrow> None
                | Some sim' \<Rightarrow> Some (mgr\<lparr>sims := (sims mgr)[unat (cp_world c) := sim']\<rparr>))))"






text \<open>
  The invocations of one System run one after the other in the order \<open>ord\<close>; each
  invocation is one step.
\<close>

definition run_invocations :: "(SimManager \<Rightarrow> u32 \<Rightarrow> SimManager option) \<Rightarrow> nat list \<Rightarrow>
    SimManager \<Rightarrow> SimManager option" where
  "run_invocations f ord mgr = for_each ord (\<lambda>i m. f m (of_nat i)) mgr"

text \<open>
  The candidate pair that an invocation of the broad phase writes for its test, whether
  a test is flagged as an overlap in the worlds of \<open>mgr\<close>, and the flagged tests among
  the invocations \<open>ord\<close>, in the order in which they run.
\<close>

definition pair_of :: "TestIndex \<Rightarrow> CandidatePair" where
  "pair_of t = \<lparr>cp_world = ti_world t, cp_a = ti_a t, cp_b = ti_b t\<rparr>"

definition flagged :: "SimManager \<Rightarrow> TestIndex \<Rightarrow> bool" where
  "flagged mgr t =
     (case arr_get (sims mgr) (unat (ti_world t)) of
        None \<Rightarrow> False
      | Some sim \<Rightarrow> compareObjAABBs sim (ti_a t) (ti_b t) = Some True)"

definition claimed :: "SimManager \<Rightarrow> nat list \<Rightarrow> TestIndex list" where
  "claimed mgr ord = filter (flagged mgr) (map (\<lambda>i. testIndices mgr ! i) ord)"

text \<open>
  What the narrow phase leaves behind in one world: the pairs of objects of the contacts
  recorded between two states of the world, from the slot the counter named in the first
  state up to the counter of the second; and, of a list of candidate pairs, the pairs of
  objects of those that lie in the world \<open>w\<close>.
\<close>

definition new_contacts :: "SimpleSim \<Rightarrow> SimpleSim \<Rightarrow> (u32 \<times> u32) list" where
  "new_contacts before after =
     map (\<lambda>ct. (ct_a ct, ct_b ct))
       (take (unat (numContacts after) - unat (numContacts before))
          (drop (unat (numContacts before)) (contacts after)))"

definition world_pairs :: "nat \<Rightarrow> CandidatePair list \<Rightarrow> (u32 \<times> u32) list" where
  "world_pairs w ps = map (\<lambda>c. (cp_a c, cp_b c)) (filter (\<lambda>c. unat (cp_world c) = w) ps)"

section \<open>job.inl: jobs and their storage\<close>

type_synonym u64 = "64 word"

text \<open>
  What can go wrong when a job is created or run. The first three are the
  \<open>static_assert\<close>s of \<open>makeJob\<close>, which stop the build; \<open>InvalidPointer\<close> and
  \<open>InvalidWorker\<close> stand for undefined behaviour (a pointer to storage that is not
  live, a worker index outside the pool).
\<close>

datatype error =
    JobTooLarge
  | JobAlignmentTooLarge
  | JobAlignmentNotPower2
  | ConfigurationError
  | ResourceExhaustion
  | InvalidPointer
  | InvalidWorker

text \<open>
  \<open>Context\<close>: the worker index; its \<open>job_mgr_\<close> pointer is the manager state that
  every operation below takes and returns. (A member \<open>name_\<close> of the source is written
  without its trailing underscore: \<open>func\<close>, \<open>data\<close>, \<open>job_allocs\<close>, \<open>alloc_state\<close>;
  \<open>worker_idx_\<close> is \<open>worker_idx_of\<close>.)
\<close>

record Context =
  worker_idx_of :: int

text \<open>
  A callable \<open>Fn\<close>: what \<open>makeJob\<close> asks of its type (\<open>std::is_empty_v\<close>,
  \<open>sizeof\<close>, \<open>std::alignment_of_v\<close>) and what its \<open>operator()\<close> does to the
  application's data \<open>'u\<close>. A callable that itself submits jobs is outside this model.
\<close>

record 'u Fn =
  is_empty :: bool
  sizeof :: u64
  alignment_of :: u64
  call :: "Context \<Rightarrow> 'u \<Rightarrow> 'u"

text \<open>
  The two entry points that \<open>makeJob\<close> stores in \<open>func_\<close>, each a captureless lambda
  instantiated at the type \<open>Fn\<close>: the first constructs an \<open>Fn\<close> on the spot, the
  second knows \<open>sizeof(Fn)\<close> and finds the callable behind \<open>data\<close>.
\<close>

datatype 'u JobFunc = EmptyEntry "'u Fn" | StoredEntry u64

record 'u Job =
  func :: "'u JobFunc"
  data :: "nat option"

datatype JobPriority = Normal | IO

text \<open>The constants \<open>Alloc::maxJobSize\<close> and \<open>Alloc::maxJobAlignment\<close>.\<close>

record Alloc =
  maxJobSize :: u64
  maxJobAlignment :: u64

text \<open>
  What is observable of a run, in the order in which it happens: the calls of the
  allocator (worker, size, alignment and address; worker, address and size) and the
  calls and destructions of callables.
\<close>

datatype event =
    EvAlloc int u64 u64 nat
  | EvCall "nat option"
  | EvDestroy nat
  | EvDealloc int nat u32

text \<open>
  Modelled from the spec: the JobAllocator, "per-worker arena for job payload storage",
  whose declaration and code are not part of job.inl. A block of payload storage has its
  size, the arena it came from and the callable built in it, if any.
\<close>

record 'u Block =
  blk_size :: u64
  blk_arena :: nat
  blk_obj :: "'u Fn option"

text \<open>Modelled from the spec: a worker's allocator, the bytes its arena can still hand out.\<close>

record JobAlloc =
  arena_free :: nat

text \<open>
  Modelled from the spec: the state shared by the allocators (\<open>alloc_state_\<close>), the
  live blocks and the next fresh address.
\<close>

record 'u AllocState =
  blocks :: "nat \<Rightarrow> 'u Block option"
  next_addr :: nat

text \<open>
  Modelled from the spec: a submitted job with its identifier, entry point, priority
  class and the dependencies still outstanding; and the manager, which owns the
  allocators, a queue of ready jobs for each worker, the jobs held back, the identifiers
  of the jobs that have completed, the application's data and the record of what was
  observed.
\<close>

record 'u QueuedJob =
  qj_id :: nat
  qj_func :: "'u JobFunc"
  qj_data :: "nat option"
  qj_prio :: JobPriority
  qj_outstanding :: "nat list"

record 'u JobManager =
  job_allocs :: "JobAlloc list"
  alloc_state :: "'u AllocState"
  run_queues :: "'u QueuedJob list list"
  waiting :: "'u QueuedJob list"
  completed :: "nat list"
  next_job_id :: nat
  user :: 'u
  events :: "event list"

text \<open>\<open>utils::isPower2(uint64_t)\<close> (utils.hpp).\<close>

definition isPower2 :: "u64 \<Rightarrow> bool" where
  "isPower2 v = (and v (v - 1) = 0)"

definition valid_worker :: "'u JobManager \<Rightarrow> int \<Rightarrow> bool" where
  "valid_worker jm w = (0 \<le> w \<and> nat w < length (job_allocs jm))"

text \<open>
  Modelled from the spec: \<open>Alloc::alloc\<close>, whose code is not part of job.inl. It
  "fails fatally if size/alignment exceed the configured maximum"; it takes the bytes
  from the arena of the calling worker, and fails (ResourceExhaustion) when that arena
  "cannot satisfy an allocation".
\<close>

definition alloc :: "Alloc \<Rightarrow> int \<Rightarrow> u64 \<Rightarrow> u64 \<Rightarrow> 'u JobManager \<Rightarrow> error + nat \<times> 'u JobManager" where
  "alloc cfg thread_idx sz alignment jm =
     (if maxJobSize cfg < sz \<or> maxJobAlignment cfg < alignment then Inl ConfigurationError
      else if \<not> valid_worker jm thread_idx then Inl InvalidWorker
      else
        (let arena = job_allocs jm ! nat thread_idx;
             ptr = next_addr (alloc_state jm)
         in if arena_free arena < unat sz then Inl ResourceExhaustion
            else Inr (ptr,
              jm\<lparr>job_allocs := (job_allocs jm)[nat thread_idx :=
                     arena\<lparr>arena_free := arena_free arena - unat sz\<rparr>],
                 alloc_state :=
                   \<lparr>blocks = (blocks (alloc_state jm))(ptr \<mapsto>
                       \<lparr>blk_size = sz, blk_arena = nat thread_idx, blk_obj = None\<rparr>),
                    next_addr = ptr + max 1 (unat sz)\<rparr>,
                 events := events jm @ [EvAlloc thread_idx sz alignment ptr]\<rparr>)))"

text \<open>
  Modelled from the spec: \<open>Alloc::dealloc\<close>, whose code is not part of job.inl. It
  "may be invoked from any worker's allocator, not only the one that allocated"; the
  bytes go back to the arena the block came from. Freeing what is not live is a fault.
\<close>

definition dealloc :: "int \<Rightarrow> nat option \<Rightarrow> u32 \<Rightarrow> 'u JobManager \<Rightarrow> error + 'u JobManager" where
  "dealloc worker_idx ptr num_bytes jm =
     (if \<not> valid_worker jm worker_idx then Inl InvalidWorker
      else case ptr of
        None \<Rightarrow> Inl InvalidPointer
      | Some p \<Rightarrow>
          (case blocks (alloc_state jm) p of
             None \<Rightarrow> Inl InvalidPointer
           | Some blk \<Rightarrow>
               (let owner = blk_arena blk;
                    arena = job_allocs jm ! owner
                in Inr (jm\<lparr>job_allocs := (job_allocs jm)[owner :=
                              arena\<lparr>arena_free := arena_free arena + unat num_bytes\<rparr>],
                          alloc_state := (alloc_state jm)\<lparr>blocks :=
                              (blocks (alloc_state jm))(p := None)\<rparr>,
                          events := events jm @ [EvDealloc worker_idx p num_bytes]\<rparr>))))"

text \<open>\<open>JobManager::deallocJob\<close>.\<close>

definition deallocJob :: "int \<Rightarrow> nat option \<Rightarrow> u32 \<Rightarrow> 'u JobManager \<Rightarrow> error + 'u JobManager" where
  "deallocJob worker_idx ptr num_bytes jm = dealloc worker_idx ptr num_bytes jm"

text \<open>\<open>new (store) Fn(std::forward<Fn>(fn))\<close>: the callable is built in the block.\<close>

definition placement_new :: "nat \<Rightarrow> 'u Fn \<Rightarrow> 'u JobManager \<Rightarrow> error + 'u JobManager" where
  "placement_new store fn jm =
     (case blocks (alloc_state jm) store of
        None \<Rightarrow> Inl InvalidPointer
      | Some blk \<Rightarrow>
          Inr (jm\<lparr>alloc_state := (alloc_state jm)\<lparr>blocks :=
                 (blocks (alloc_state jm))(store \<mapsto> blk\<lparr>blk_obj := Some fn\<rparr>)\<rparr>\<rparr>))"

text \<open>\<open>JobManager::makeJob\<close>.\<close>

definition makeJob :: "Alloc \<Rightarrow> 'u Fn \<Rightarrow> int \<Rightarrow> 'u JobManager \<Rightarrow> error + 'u Job \<times> 'u JobManager" where
  "makeJob cfg fn thread_idx jm =
     (if is_empty fn then Inr (\<lparr>func = EmptyEntry fn, data = None\<rparr>, jm)
      else
        (let job_size = sizeof fn;
             job_alignment = alignment_of fn
         in if \<not> job_size \<le> maxJobSize cfg then Inl JobTooLarge
            else if \<not> job_alignment \<le> maxJobAlignment cfg then Inl JobAlignmentTooLarge
            else if \<not> isPower2 job_alignment then Inl JobAlignmentNotPower2
            else case alloc cfg thread_idx job_size job_alignment jm of
                   Inl e \<Rightarrow> Inl e
                 | Inr (store, jm1) \<Rightarrow>
                     (case placement_new store fn jm1 of
                        Inl e \<Rightarrow> Inl e
                      | Inr jm2 \<Rightarrow> Inr (\<lparr>func = StoredEntry job_size, data = Some store\<rparr>, jm2))))"

text \<open>
  Running \<open>func_(ctx, data)\<close>: the bodies of the two lambdas of \<open>makeJob\<close>. The
  second calls the callable, destroys it and hands its storage to \<open>deallocJob\<close>
  with the index of the worker that runs the job.
\<close>

fun run_func :: "'u JobFunc \<Rightarrow> Context \<Rightarrow> nat option \<Rightarrow> 'u JobManager \<Rightarrow> error + 'u JobManager" where
  "run_func (EmptyEntry fn) ctx dptr jm =
     Inr (jm\<lparr>user := call fn ctx (user jm), events := events jm @ [EvCall None]\<rparr>)"
| "run_func (StoredEntry job_size) ctx dptr jm =
     (case dptr of
        None \<Rightarrow> Inl InvalidPointer
      | Some fn_ptr \<Rightarrow>
          (case blocks (alloc_state jm) fn_ptr of
             None \<Rightarrow> Inl InvalidPointer
           | Some blk \<Rightarrow>
               (case blk_obj blk of
                  None \<Rightarrow> Inl InvalidPointer
                | Some f \<Rightarrow>
                    (let jm1 = jm\<lparr>user := call f ctx (user jm),
                                  events := events jm @ [EvCall (Some fn_ptr)]\<rparr>;
                         jm2 = jm1\<lparr>alloc_state := (alloc_state jm1)\<lparr>blocks :=
                                    (blocks (alloc_state jm1))(fn_ptr \<mapsto> blk\<lparr>blk_obj := None\<rparr>)\<rparr>,
                                  events := events jm1 @ [EvDestroy fn_ptr]\<rparr>
                     in deallocJob (worker_idx_of ctx) (Some fn_ptr) (ucast job_size) jm2))))"

text \<open>
  Modelled from the spec: the six-argument \<open>JobManager::queueJob\<close>, whose code is not
  part of job.inl. "If dependencies are already satisfied the Job is enqueued
  immediately; otherwise it is held until the last outstanding dependency completes";
  a ready job goes to the queue of the submitting worker. The dependencies are the
  first \<open>num_dependencies\<close> entries behind \<open>deps\<close>.
\<close>

definition queueJob6 :: "int \<Rightarrow> 'u JobFunc \<Rightarrow> nat option \<Rightarrow> nat list \<Rightarrow> u32 \<Rightarrow> JobPriority \<Rightarrow>
    'u JobManager \<Rightarrow> error + nat \<times> 'u JobManager" where
  "queueJob6 thread_idx fn_ptr dptr deps num_dependencies prio jm =
     (if \<not> (0 \<le> thread_idx \<and> nat thread_idx < length (run_queues jm)) then Inl InvalidWorker
      else
        (let jid = next_job_id jm;
             outstanding = filter (\<lambda>d. d \<notin> set (completed jm)) (take (unat num_dependencies) deps);
             entry = \<lparr>qj_id = jid, qj_func = fn_ptr, qj_data = dptr, qj_prio = prio,
                      qj_outstanding = outstanding\<rparr>;
             jm1 = jm\<lparr>next_job_id := jid + 1\<rparr>
         in if outstanding = []
            then Inr (jid, jm1\<lparr>run_queues := (run_queues jm1)[nat thread_idx :=
                                run_queues jm1 ! nat thread_idx @ [entry]]\<rparr>)
            else Inr (jid, jm1\<lparr>waiting := waiting jm1 @ [entry]\<rparr>)))"

text \<open>The five-argument \<open>JobManager::queueJob\<close>.\<close>

definition JobManager_queueJob :: "int \<Rightarrow> 'u Job \<Rightarrow> nat list \<Rightarrow> u32 \<Rightarrow> JobPriority \<Rightarrow>
    'u JobManager \<Rightarrow> error + nat \<times> 'u JobManager" where
  "JobManager_queueJob thread_idx job deps num_dependencies prio jm =
     queueJob6 thread_idx (func job) (data job) deps num_dependencies prio jm"

text \<open>
  \<open>Context::queueJob\<close>. The parameters \<open>is_child\<close> and \<open>dependencies\<close> are evaluated
  and dropped; the manager is called with \<open>nullptr\<close> and a count of 0.
\<close>

definition Context_queueJob :: "Alloc \<Rightarrow> Context \<Rightarrow> 'u Fn \<Rightarrow> bool \<Rightarrow> nat list \<Rightarrow>
    'u JobManager \<Rightarrow> error + nat \<times> 'u JobManager" where
  "Context_queueJob cfg ctx fn is_child dependencies jm =
     (case makeJob cfg fn (worker_idx_of ctx) jm of
        Inl e \<Rightarrow> Inl e
      | Inr (job, jm1) \<Rightarrow> JobManager_queueJob (worker_idx_of ctx) job [] 0 Normal jm1)"

text \<open>A job is eligible to run once it sits in a worker's queue.\<close>

definition eligible :: "'u JobManager \<Rightarrow> nat \<Rightarrow> bool" where
  "eligible jm jid = (\<exists>q \<in> set (run_queues jm). jid \<in> qj_id ` set q)"

definition held :: "'u JobManager \<Rightarrow> nat \<Rightarrow> bool" where
  "held jm jid = (jid \<in> qj_id ` set (waiting jm))"

section \<open>The task graph\<close>

text \<open>
  Modelled from the spec: the TaskGraph, its Builder and \<open>run()\<close>, whose code is
  not among the sources. A System is registered with a fixed invocation count or as
  dynamically populated, and with the identifiers of the Systems it depends on; its
  identifier is its position in the order of registration.
\<close>

record SystemDecl =
  fixed_count :: "nat option"
  dependencies :: "nat list"

type_synonym TaskGraph = "SystemDecl list"

text \<open>
  Modelled from the spec: \<open>registerSystem\<close> "returns a stable identifier; a System
  may only depend on already-registered Systems".
\<close>

definition registerSystem :: "TaskGraph \<Rightarrow> nat option \<Rightarrow> nat list \<Rightarrow> error + nat \<times> TaskGraph" where
  "registerSystem g cnt deps =
     (if list_all (\<lambda>d. d < length g) deps
      then Inr (length g, g @ [\<lparr>fixed_count = cnt, dependencies = deps\<rparr>])
      else Inl ConfigurationError)"

text \<open>
  Modelled from the spec: the state of one System during an epoch. Its invocation
  counter, the next invocation index to hand out, the number of invocations that have
  finished, its remaining-dependency count, and whether its completion has been passed
  on to its dependents.
\<close>

record SystemInfo =
  sys_count :: nat
  curOffset :: nat
  numFinished :: nat
  remainingDeps :: nat
  completedFlag :: bool

text \<open>What the workers do, as seen from outside: invocation \<open>i\<close> of System \<open>s\<close> begins, ends.\<close>

datatype tg_event = Begin nat nat | End nat nat

record RunState =
  infos :: "SystemInfo list"
  active :: "(nat \<times> nat) list"
  history :: "tg_event list"

text \<open>
  Modelled from the spec: \<open>run()\<close> "resets every System's invocation counter to
  either (a) a fixed pre-declared count, or (b) zero"; every dependency is outstanding.
\<close>

definition start_epoch :: "TaskGraph \<Rightarrow> RunState" where
  "start_epoch g =
     \<lparr>infos = map (\<lambda>d. \<lparr>sys_count = (case fixed_count d of Some k \<Rightarrow> k | None \<Rightarrow> 0),
                          curOffset = 0, numFinished = 0,
                          remainingDeps = length (dependencies d),
                          completedFlag = False\<rparr>) g,
      active = [], history = []\<rparr>"

text \<open>
  Modelled from the spec: the atomic steps of the workers. The order in which they
  happen is not fixed by the graph: a schedule is any list of them.
  \<^item> \<open>Dispatch s\<close>: a worker claims the next invocation index of \<open>s\<close> and begins it;
    possible once the remaining-dependency count of \<open>s\<close> is zero and an index is left.
  \<^item> \<open>Finish s i\<close>: the running invocation \<open>i\<close> of \<open>s\<close> ends.
  \<^item> \<open>Complete s\<close>: \<open>s\<close> "has completed all of its invocations"; the
    remaining-dependency count of every dependent is decremented, once for each edge.
  \<^item> \<open>Produce p i c\<close>: the running invocation \<open>i\<close> of the producer \<open>p\<close> adds one to
    the counter of the dynamically populated System \<open>c\<close>, which depends on \<open>p\<close>.
\<close>

datatype action = Dispatch nat | Finish nat nat | Complete nat | Produce nat nat nat

text \<open>
  Modelled from the spec: the dispatch of one invocation, which \<open>run()\<close> does not do
  "until every System in its dependency set has completed all of its invocations". The
  index handed out is the next one not yet claimed.
\<close>

definition dispatch :: "nat \<Rightarrow> RunState \<Rightarrow> RunState option" where
  "dispatch s st =
     (case arr_get (infos st) s of
        None \<Rightarrow> None
      | Some info \<Rightarrow>
          if remainingDeps info = 0 \<and> curOffset info < sys_count info
          then Some (st\<lparr>infos := (infos st)[s := info\<lparr>curOffset := curOffset info + 1\<rparr>],
                        active := (s, curOffset info) # active st,
                        history := history st @ [Begin s (curOffset info)]\<rparr>)
          else None)"

text \<open>Modelled from the spec: a running invocation returns.\<close>

definition finish :: "nat \<Rightarrow> nat \<Rightarrow> RunState \<Rightarrow> RunState option" where
  "finish s i st =
     (case arr_get (infos st) s of
        None \<Rightarrow> None
      | Some info \<Rightarrow>
          if (s, i) \<in> set (active st)
          then Some (st\<lparr>infos := (infos st)[s := info\<lparr>numFinished := numFinished info + 1\<rparr>],
                        active := remove1 (s, i) (active st),
                        history := history st @ [End s i]\<rparr>)
          else None)"

text \<open>
  Modelled from the spec: on completion the remaining-dependency count of each dependent
  is "decremented once per completing dependency", along the inverse edges of the graph.
\<close>

definition notify :: "TaskGraph \<Rightarrow> nat \<Rightarrow> SystemInfo list \<Rightarrow> SystemInfo list" where
  "notify g s xs =
     map (\<lambda>(d, info). info\<lparr>remainingDeps := remainingDeps info - count_list (dependencies d) s\<rparr>)
         (zip g xs)"

text \<open>
  Modelled from the spec: a System that is eligible and whose invocations have all
  finished completes, once.
\<close>

definition complete :: "TaskGraph \<Rightarrow> nat \<Rightarrow> RunState \<Rightarrow> RunState option" where
  "complete g s st =
     (case arr_get (infos st) s of
        None \<Rightarrow> None
      | Some info \<Rightarrow>
          if remainingDeps info = 0 \<and> \<not> completedFlag info \<and> numFinished info = sys_count info
          then Some (st\<lparr>infos := notify g s ((infos st)[s := info\<lparr>completedFlag := True\<rparr>])\<rparr>)
          else None)"

text \<open>
  Modelled from the spec: "a designated upstream System will populate it dynamically via
  atomic fetch-and-add while executing its own invocations".
\<close>

definition produce :: "TaskGraph \<Rightarrow> nat \<Rightarrow> nat \<Rightarrow> nat \<Rightarrow> RunState \<Rightarrow> RunState option" where
  "produce g p i c st =
     (case arr_get (infos st) c of
        None \<Rightarrow> None
      | Some info \<Rightarrow>
          (case arr_get g c of
             None \<Rightarrow> None
           | Some d \<Rightarrow>
               if (p, i) \<in> set (active st) \<and> fixed_count d = None \<and> p \<in> set (dependencies d)
               then Some (st\<lparr>infos := (infos st)[c := info\<lparr>sys_count := sys_count info + 1\<rparr>]\<rparr>)
               else None))"

text \<open>Modelled from the spec: one step, and a list of steps; a step that is not possible gives \<open>None\<close>.\<close>

fun apply_action :: "TaskGraph \<Rightarrow> action \<Rightarrow> RunState \<Rightarrow> RunState option" where
  "apply_action g (Dispatch s) st = dispatch s st"
| "apply_action g (Finish s i) st = finish s i st"
| "apply_action g (Complete s) st = complete g s st"
| "apply_action g (Produce p i c) st = produce g p i c st"

primrec exec :: "TaskGraph \<Rightarrow> action list \<Rightarrow> RunState \<Rightarrow> RunState option" where
  "exec g [] st = Some st"
| "exec g (a # rest) st =
     (case apply_action g a st of None \<Rightarrow> None | Some st' \<Rightarrow> exec g rest st')"

text \<open>
  Modelled from the spec: \<open>run()\<close>, one epoch under the schedule \<open>sched\<close>; \<open>None\<close> if
  the schedule asks for a step that is not possible.
\<close>

definition run :: "TaskGraph \<Rightarrow> action list \<Rightarrow> RunState option" where
  "run g sched = exec g sched (start_epoch g)"

text \<open>Modelled from the spec: the epoch is over when every System has completed.\<close>

definition epoch_complete :: "RunState \<Rightarrow> bool" where
  "epoch_complete st = list_all completedFlag (infos st)"

text \<open>The invocation indices of System \<open>s\<close> that begin, and that end, in a history.\<close>

fun begun :: "nat \<Rightarrow> tg_event list \<Rightarrow> nat list" where
  "begun s [] = []"
| "begun s (Begin s' i # h) = (if s' = s then i # begun s h else begun s h)"
| "begun s (End s' i # h) = begun s h"

fun ended :: "nat \<Rightarrow> tg_event list \<Rightarrow> nat list" where
  "ended s [] = []"
| "ended s (Begin s' i # h) = ended s h"
| "ended s (End s' i # h) = (if s' = s then i # ended s h else ended s h)"

text \<open>The invocations of \<open>s\<close> that are running.\<close>

definition active_of :: "nat \<Rightarrow> RunState \<Rightarrow> nat list" where
  "active_of s st = map snd (filter (\<lambda>e. fst e = s) (active st))"

definition is_done :: "RunState \<Rightarrow> nat \<Rightarrow> bool" where
  "is_done st d = (d < length (infos st) \<and> completedFlag (infos st ! d))"

text \<open>What every state of an epoch satisfies.\<close>

definition sys_inv :: "TaskGraph \<Rightarrow> RunState \<Rightarrow> nat \<Rightarrow> bool" where
  "sys_inv g st s =
     (let info = infos st ! s; h = history st
      in begun s h = [0 ..< curOffset info] \<and>
         mset (ended s h) + mset (active_of s st) = mset [0 ..< curOffset info] \<and>
         numFinished info = length (ended s h) \<and>
         curOffset info \<le> sys_count info \<and>
         remainingDeps info = length (filter (\<lambda>d. \<not> is_done st d) (dependencies (g ! s))) \<and>
         (completedFlag info \<longrightarrow> remainingDeps info = 0 \<and> numFinished info = sys_count info) \<and>
         (0 < remainingDeps info \<longrightarrow> curOffset info = 0) \<and>
         (\<forall>k. fixed_count (g ! s) = Some k \<longrightarrow> sys_count info = k))"

definition tg_inv :: "TaskGraph \<Rightarrow> RunState \<Rightarrow> bool" where
  "tg_inv g st = (length (infos st) = length g \<and> (\<forall>s < length g. sys_inv g st s))"

text \<open>
  The order the history keeps along an edge: when an invocation of \<open>s2\<close> begins,
  each System \<open>s1\<close> it depends on has begun and ended all its invocations, and none of
  \<open>s1\<close> begins or ends later.
\<close>

definition edge_ordered :: "RunState \<Rightarrow> nat \<Rightarrow> nat \<Rightarrow> bool" where
  "edge_ordered st s1 s2 =
     (\<forall>before j after. history st = before @ Begin s2 j # after \<longrightarrow>
        begun s1 before = [0 ..< sys_count (infos st ! s1)] \<and>
        mset (ended s1 before) = mset [0 ..< sys_count (infos st ! s1)] \<and>
        begun s1 after = [] \<and> ended s1 after = [])"

definition all_ordered :: "TaskGraph \<Rightarrow> RunState \<Rightarrow> bool" where
  "all_ordered g st =
     (\<forall>s2 < length g. \<forall>s1 \<in> set (dependencies (g ! s2)). edge_ordered st s1 s2)"

text \<open>
  A graph as the Builder produces it: every System depends on Systems registered before it.
\<close>

definition well_formed :: "TaskGraph \<Rightarrow> bool" where
  "well_formed g = (\<forall>s < length g. \<forall>d \<in> set (dependencies (g ! s)). d < s)"

section \<open>Data for the worked examples\<close>

text \<open>
  An arithmetic for the examples: exact on finite operands (the small integers used
  below need no rounding), the square root tabulated at 0, 1 and 4.
\<close>

fun exact2 :: "(rat \<Rightarrow> rat \<Rightarrow> rat) \<Rightarrow> float32 \<Rightarrow> float32 \<Rightarrow> float32" where
  "exact2 f (Fin a) (Fin b) = Fin (f a b)"
| "exact2 f _ _ = NaN"

fun example_sqrtf :: "float32 \<Rightarrow> float32" where
  "example_sqrtf (Fin q) =
     (if q = 0 then Fin 0 else if q = 1 then Fin 1 else if q = 4 then Fin 2 else NaN)"
| "example_sqrtf _ = NaN"

definition example_fops :: fops where
  "example_fops =
     \<lparr>fadd = exact2 (+), fsub = exact2 (-), fmul = exact2 (*),
      fdiv = (\<lambda>a b. if b = Fin 0 then NaN else exact2 (/) a b),
      sqrtf = example_sqrtf, rsqrtf = (\<lambda>_. NaN), gpu_mode = False\<rparr>"

definition unit_scale :: Diag3x3 where
  "unit_scale = \<lparr>d0 = Fin 1, d1 = Fin 1, d2 = Fin 1\<rparr>"

definition vec :: "rat \<Rightarrow> rat \<Rightarrow> rat \<Rightarrow> Vector3" where
  "vec a b c = \<lparr>vx = Fin a, vy = Fin b, vz = Fin c\<rparr>"

text \<open>An unrotated object on the x axis, as the constructor of \<open>SimpleSim\<close> leaves it.\<close>

definition example_obj :: "rat \<Rightarrow> SphereObject" where
  "example_obj px =
     \<lparr>translation = vec px 0 0,
      rotation = \<lparr>qw = Fin 1, qx = Fin 0, qy = Fin 0, qz = Fin 0\<rparr>,
      aabb = invalid\<rparr>"

text \<open>One world with two objects one unit apart, whose boxes will overlap.\<close>

definition example_sim :: SimpleSim where
  "example_sim =
     \<lparr>worldBounds = \<lparr>pMin = vec (- 10) (- 10) (- 10), pMax = vec 10 10 10\<rparr>,
      sphereObjects = [example_obj 0, example_obj 1],
      contacts = replicate 4 \<lparr>normal = vec 0 0 0, ct_a = 0, ct_b = 0\<rparr>,
      numSphereObjects = 2, numContacts = 0\<rparr>"

text \<open>Its manager, as the constructor of \<open>SimManager\<close> builds it; the counter of the narrow phase holds a stale 9.\<close>

definition example_mgr :: SimManager where
  "example_mgr =
     \<lparr>preprocess = \<lparr>numInvocations = 2\<rparr>, broad = \<lparr>numInvocations = 4\<rparr>,
      narrow = \<lparr>numInvocations = 9\<rparr>, solver = \<lparr>numInvocations = 1\<rparr>,
      unified = \<lparr>numInvocations = 1\<rparr>,
      sims = [example_sim],
      sphereIndices = [\<lparr>si_world = 0, si_offset = 0\<rparr>, \<lparr>si_world = 0, si_offset = 1\<rparr>],
      testIndices = [\<lparr>ti_world = 0, ti_a = 0, ti_b = 0\<rparr>, \<lparr>ti_world = 0, ti_a = 0, ti_b = 1\<rparr>,
                     \<lparr>ti_world = 0, ti_a = 1, ti_b = 0\<rparr>, \<lparr>ti_world = 0, ti_a = 1, ti_b = 1\<rparr>],
      candidatePairs = replicate 4 \<lparr>cp_world = 0, cp_a = 0, cp_b = 0\<rparr>\<rparr>"

text \<open>The states the example passes through in one epoch.\<close>

definition example_box :: "rat \<Rightarrow> AABB" where
  "example_box px = \<lparr>pMin = vec (px - 1) (- 1) (- 1), pMax = vec (px + 1) 1 1\<rparr>"

definition example_preprocessed :: SimManager where
  "example_preprocessed =
     example_mgr\<lparr>narrow := \<lparr>numInvocations = 0\<rparr>,
       sims := [example_sim\<lparr>sphereObjects :=
                  [(example_obj 0)\<lparr>aabb := example_box 0\<rparr>,
                   (example_obj 1)\<lparr>aabb := example_box 1\<rparr>]\<rparr>]\<rparr>"

definition example_broadphased :: SimManager where
  "example_broadphased =
     example_preprocessed\<lparr>narrow := \<lparr>numInvocations = 2\<rparr>,
       candidatePairs := [\<lparr>cp_world = 0, cp_a = 0, cp_b = 1\<rparr>, \<lparr>cp_world = 0, cp_a = 1, cp_b = 0\<rparr>,
                          \<lparr>cp_world = 0, cp_a = 0, cp_b = 0\<rparr>, \<lparr>cp_world = 0, cp_a = 0, cp_b = 0\<rparr>]\<rparr>"

definition example_narrowed :: SimManager where
  "example_narrowed =
     example_broadphased\<lparr>sims :=
       [(sims example_preprocessed ! 0)\<lparr>contacts :=
            [\<lparr>normal = vec (- 1) 0 0, ct_a = 1, ct_b = 0\<rparr>,
             \<lparr>normal = vec 1 0 0, ct_a = 0, ct_b = 1\<rparr>,
             \<lparr>normal = vec 0 0 0, ct_a = 0, ct_b = 0\<rparr>,
             \<lparr>normal = vec 0 0 0, ct_a = 0, ct_b = 0\<rparr>],
          numContacts := 2\<rparr>]\<rparr>"

text \<open>
  A manager with two workers and one job (identifier 0) that has been submitted and has
  not completed; the limits of the allocator; and four callables over a counter: an empty
  one, an empty one declared with \<open>alignas(256)\<close>, one that captures 16 bytes, and one
  that captures 2048 bytes.
\<close>

definition example_cfg :: Alloc where
  "example_cfg = \<lparr>maxJobSize = 1024, maxJobAlignment = 128\<rparr>"

definition empty_fn :: "nat Fn" where
  "empty_fn = \<lparr>is_empty = True, sizeof = 1, alignment_of = 1, call = (\<lambda>ctx u. u + 1)\<rparr>"

definition aligned_empty_fn :: "nat Fn" where
  "aligned_empty_fn = \<lparr>is_empty = True, sizeof = 256, alignment_of = 256, call = (\<lambda>ctx u. u + 1)\<rparr>"

definition capture_fn :: "nat Fn" where
  "capture_fn = \<lparr>is_empty = False, sizeof = 16, alignment_of = 8, call = (\<lambda>ctx u. u + 5)\<rparr>"

definition large_fn :: "nat Fn" where
  "large_fn = \<lparr>is_empty = False, sizeof = 2048, alignment_of = 8, call = (\<lambda>ctx u. u + 5)\<rparr>"

definition example_jm :: "nat JobManager" where
  "example_jm =
     \<lparr>job_allocs = [\<lparr>arena_free = 4096\<rparr>, \<lparr>arena_free = 4096\<rparr>],
      alloc_state = \<lparr>blocks = (\<lambda>p. None), next_addr = 64\<rparr>,
      run_queues = [[\<lparr>qj_id = 0, qj_func = EmptyEntry empty_fn, qj_data = None,
                      qj_prio = Normal, qj_outstanding = []\<rparr>], []],
      waiting = [],
      completed = [],
      next_job_id = 1,
      user = 0,
      events = []\<rparr>"

text \<open>
  The graph of simple.cpp: preprocess (2 invocations), broad phase (4), narrow phase
  (populated by the broad phase), solver (1); a schedule of one epoch in which the broad
  phase flags two pairs; and the state in which it ends.
\<close>

definition example_graph :: TaskGraph where
  "example_graph =
     [\<lparr>fixed_count = Some 2, dependencies = []\<rparr>,
      \<lparr>fixed_count = Some 4, dependencies = [0]\<rparr>,
      \<lparr>fixed_count = None, dependencies = [1]\<rparr>,
      \<lparr>fixed_count = Some 1, dependencies = [2]\<rparr>]"

definition example_schedule :: "action list" where
  "example_schedule =
     [Dispatch 0, Dispatch 0, Finish 0 1, Finish 0 0, Complete 0,
      Dispatch 1, Dispatch 1, Dispatch 1, Produce 1 1 2, Finish 1 1, Dispatch 1,
      Finish 1 0, Produce 1 2 2, Finish 1 3, Finish 1 2, Complete 1,
      Dispatch 2, Dispatch 2, Finish 2 1, Finish 2 0, Complete 2,
      Dispatch 3, Finish 3 0, Complete 3]"

definition example_before :: "tg_event list" where
  "example_before =
     [Begin 0 0, Begin 0 1, End 0 1, End 0 0,
      Begin 1 0, Begin 1 1, Begin 1 2, End 1 1, Begin 1 3, End 1 0, End 1 3, End 1 2,
      Begin 2 0, Begin 2 1, End 2 1, End 2 0]"

definition example_final :: RunState where
  "example_final =
     \<lparr>infos =
        [\<lparr>sys_count = 2, curOffset = 2, numFinished = 2, remainingDeps = 0, completedFlag = True\<rparr>,
         \<lparr>sys_count = 4, curOffset = 4, numFinished = 4, remainingDeps = 0, completedFlag = True\<rparr>,
         \<lparr>sys_count = 2, curOffset = 2, numFinished = 2, remainingDeps = 0, completedFlag = True\<rparr>,
         \<lparr>sys_count = 1, curOffset = 1, numFinished = 1, remainingDeps = 0, completedFlag = True\<rparr>],
      active = [],
      history = example_before @ [Begin 3 0, End 3 0]\<rparr>"

section \<open>Bounding-box overlap\<close>

lemma overlaps_commute: "overlaps a b = overlaps b a"
  by (auto simp: overlaps_def Let_def)

text \<open>
  Claim C9. The overlap test is symmetric: \<open>a.overlaps(b)\<close> equals
  \<open>b.overlaps(a)\<close> for all boxes (NaN and infinite coordinates included), and
  \<open>compareObjAABBs(sim, i, j)\<close> equals \<open>compareObjAABBs(sim, j, i)\<close> for all
  object indices, an out-of-range index faulting in both orders alike.
\<close>

theorem overlaps_symmetric:
  "overlaps a b = overlaps b a \<and>
   compareObjAABBs sim i j = compareObjAABBs sim j i"
  by (auto simp: compareObjAABBs_def overlaps_commute split: option.splits)

section \<open>The two variants of the narrow phase\<close>

lemma narrowPhase_variants_equal:
  "narrowPhase True fp sim a b = narrowPhase False fp sim a b"
  by (simp add: narrowPhase_def fetch_add_def atomic_load_def atomic_store_def Let_def
           split: option.splits)

lemma narrowPhase_effect:
  assumes "narrowPhase False fp sim a b = Some sim'"
  shows "unat (numContacts sim) < length (contacts sim) \<and>
         sim' = sim\<lparr>numContacts := numContacts sim + 1,
                    contacts := (contacts sim)[unat (numContacts sim) :=
                      \<lparr>normal = normalize_v3 fp (v3_sub fp (translation (sphereObjects sim ! unat b))
                                                       (translation (sphereObjects sim ! unat a))),
                       ct_a = a, ct_b = b\<rparr>]\<rparr>"
proof -
  from assms obtain oa where oa: "arr_get (sphereObjects sim) (unat a) = Some oa"
    by (cases "arr_get (sphereObjects sim) (unat a)") (simp_all add: narrowPhase_def)
  from assms oa obtain ob where ob: "arr_get (sphereObjects sim) (unat b) = Some ob"
    by (cases "arr_get (sphereObjects sim) (unat b)") (simp_all add: narrowPhase_def)
  from oa have ea: "sphereObjects sim ! unat a = oa"
    by (simp add: arr_get_def split: if_splits)
  from ob have eb: "sphereObjects sim ! unat b = ob"
    by (simp add: arr_get_def split: if_splits)
  let ?c = "\<lparr>normal = normalize_v3 fp (v3_sub fp (translation ob) (translation oa)), ct_a = a, ct_b = b\<rparr>"
  from assms oa ob have r:
    "(case arr_set (contacts sim) (unat (numContacts sim)) ?c of
        None \<Rightarrow> None
      | Some cs \<Rightarrow> Some (sim\<lparr>numContacts := numContacts sim + 1, contacts := cs\<rparr>)) = Some sim'"
    by (simp add: narrowPhase_def atomic_load_def atomic_store_def Let_def)
  then obtain cs where cs: "arr_set (contacts sim) (unat (numContacts sim)) ?c = Some cs"
    and s': "sim' = sim\<lparr>numContacts := numContacts sim + 1, contacts := cs\<rparr>"
    by (cases "arr_set (contacts sim) (unat (numContacts sim)) ?c") auto
  from cs have "unat (numContacts sim) < length (contacts sim)"
    and "cs = (contacts sim)[unat (numContacts sim) := ?c]"
    by (simp_all add: arr_set_def split: if_splits)
  then show ?thesis unfolding ea eb s' by simp
qed

text \<open>
  Claim C8. Run from the same state, \<open>narrowPhase<true>\<close> (\<open>fetch_add\<close>) and
  \<open>narrowPhase<false>\<close> (load, then store) give the same result, a fault included;
  when they return, the counter has grown by exactly one and the contact of the pair
  is in the slot the counter named before, nothing else being changed.
\<close>

theorem narrowPhase_atomic_equiv:
  "narrowPhase True fp sim a b = narrowPhase False fp sim a b \<and>
   (narrowPhase False fp sim a b = Some sim' \<longrightarrow>
      unat (numContacts sim) < length (contacts sim) \<and>
      sim' = sim\<lparr>numContacts := numContacts sim + 1,
                 contacts := (contacts sim)[unat (numContacts sim) :=
                   \<lparr>normal = normalize_v3 fp (v3_sub fp (translation (sphereObjects sim ! unat b))
                                                    (translation (sphereObjects sim ! unat a))),
                    ct_a = a, ct_b = b\<rparr>]\<rparr>)"
  using narrowPhase_variants_equal narrowPhase_effect by blast

theorem narrowPhase_atomic_equiv_witness:
  "narrowPhase True example_fops (sims example_preprocessed ! 0) 0 1 =
     Some ((sims example_preprocessed ! 0)\<lparr>numContacts := 1,
        contacts := (contacts (sims example_preprocessed ! 0))[0 :=
           \<lparr>normal = vec 1 0 0, ct_a = 0, ct_b = 1\<rparr>]\<rparr>) \<and>
   narrowPhase False example_fops (sims example_preprocessed ! 0) 0 1 =
     Some ((sims example_preprocessed ! 0)\<lparr>numContacts := 1,
        contacts := (contacts (sims example_preprocessed ! 0))[0 :=
           \<lparr>normal = vec 1 0 0, ct_a = 0, ct_b = 1\<rparr>]\<rparr>)"
proof -
  have h: "narrowPhase False example_fops (sims example_preprocessed ! 0) 0 1 =
     Some ((sims example_preprocessed ! 0)\<lparr>numContacts := 1,
        contacts := (contacts (sims example_preprocessed ! 0))[0 :=
           \<lparr>normal = vec 1 0 0, ct_a = 0, ct_b = 1\<rparr>]\<rparr>)"
    by code_simp
  from narrowPhase_atomic_equiv[of example_fops "sims example_preprocessed ! 0" 0 1] h
  show ?thesis by simp
qed

section \<open>The broad phase populates the narrow phase\<close>

lemma Preprocess_step:
  assumes "PreprocessSystem_run fp s m i = Some m'"
  shows "numInvocations (narrow m') = (if i = 0 then 0 else numInvocations (narrow m))"
    and "broad m' = broad m" and "testIndices m' = testIndices m"
    and "candidatePairs m' = candidatePairs m"
  using assms
  by (auto simp: PreprocessSystem_run_def Let_def atomic_store_def split: option.splits if_splits)

lemma Preprocess_run:
  assumes "for_each ord (\<lambda>i m. PreprocessSystem_run fp s m (of_nat i)) m = Some m'"
  shows "broad m' = broad m \<and> testIndices m' = testIndices m \<and> candidatePairs m' = candidatePairs m \<and>
         (numInvocations (narrow m) = 0 \<or> 0 \<in> set ord \<longrightarrow> numInvocations (narrow m') = 0)"
  using assms
proof (induction ord arbitrary: m)
  case Nil
  then show ?case by simp
next
  case (Cons i ord)
  from Cons.prems obtain m1 where
    s1: "PreprocessSystem_run fp s m (of_nat i) = Some m1" and
    r: "for_each ord (\<lambda>i m. PreprocessSystem_run fp s m (of_nat i)) m1 = Some m'"
    by (auto split: option.splits)
  note st = Preprocess_step[OF s1]
  from Cons.IH[OF r] st show ?case
    by (auto split: if_splits)
qed

lemma Broadphase_unfold:
  assumes "BroadphaseSystem_run m i = Some m'"
  obtains test sim ov where
    "arr_get (testIndices m) (unat i) = Some test"
    "arr_get (sims m) (unat (ti_world test)) = Some sim"
    "compareObjAABBs sim (ti_a test) (ti_b test) = Some ov"
    "ov \<Longrightarrow> \<exists>cps. arr_set (candidatePairs m) (unat (numInvocations (narrow m))) (pair_of test) = Some cps \<and>
            m' = m\<lparr>narrow := (narrow m)\<lparr>numInvocations := numInvocations (narrow m) + 1\<rparr>,
                   candidatePairs := cps\<rparr>"
    "\<not> ov \<Longrightarrow> m' = m"
proof -
  from assms obtain test where
    t: "arr_get (testIndices m) (unat i) = Some test"
    by (cases "arr_get (testIndices m) (unat i)") (simp_all add: BroadphaseSystem_run_def)
  from assms t obtain sim where
    s: "arr_get (sims m) (unat (ti_world test)) = Some sim"
    by (cases "arr_get (sims m) (unat (ti_world test))") (simp_all add: BroadphaseSystem_run_def)
  from assms t s obtain ov where
    c: "compareObjAABBs sim (ti_a test) (ti_b test) = Some ov"
    by (cases "compareObjAABBs sim (ti_a test) (ti_b test)") (simp_all add: BroadphaseSystem_run_def)
  have r: "(if ov then
             (case arr_set (candidatePairs m) (unat (numInvocations (narrow m))) (pair_of test) of
                None \<Rightarrow> None
              | Some cps \<Rightarrow> Some (m\<lparr>narrow := (narrow m)\<lparr>numInvocations := numInvocations (narrow m) + 1\<rparr>,
                                    candidatePairs := cps\<rparr>))
           else Some m) = Some m'"
    using assms t s c
    by (cases ov) (simp_all add: BroadphaseSystem_run_def fetch_add_def pair_of_def Let_def)
  have a: "ov \<Longrightarrow> \<exists>cps. arr_set (candidatePairs m) (unat (numInvocations (narrow m))) (pair_of test) = Some cps \<and>
            m' = m\<lparr>narrow := (narrow m)\<lparr>numInvocations := numInvocations (narrow m) + 1\<rparr>,
                   candidatePairs := cps\<rparr>"
    using r by (cases "arr_set (candidatePairs m) (unat (numInvocations (narrow m))) (pair_of test)") auto
  have b: "\<not> ov \<Longrightarrow> m' = m" using r by simp
  from that[OF t s c a b] show thesis .
qed



lemma Broadphase_step:
  assumes "BroadphaseSystem_run m i = Some m'"
  shows "unat i < length (testIndices m)"
    and "sims m' = sims m" and "testIndices m' = testIndices m" and "broad m' = broad m"
    and "flagged m (testIndices m ! unat i) \<Longrightarrow>
           unat (numInvocations (narrow m)) < length (candidatePairs m) \<and>
           numInvocations (narrow m') = numInvocations (narrow m) + 1 \<and>
           candidatePairs m' = (candidatePairs m)[unat (numInvocations (narrow m)) :=
                                  pair_of (testIndices m ! unat i)]"
    and "\<not> flagged m (testIndices m ! unat i) \<Longrightarrow>
           numInvocations (narrow m') = numInvocations (narrow m) \<and>
           candidatePairs m' = candidatePairs m"
proof -
  from assms obtain test sim ov where
    t: "arr_get (testIndices m) (unat i) = Some test" and
    s: "arr_get (sims m) (unat (ti_world test)) = Some sim" and
    c: "compareObjAABBs sim (ti_a test) (ti_b test) = Some ov" and
    a: "ov \<Longrightarrow> \<exists>cps. arr_set (candidatePairs m) (unat (numInvocations (narrow m))) (pair_of test) = Some cps \<and>
            m' = m\<lparr>narrow := (narrow m)\<lparr>numInvocations := numInvocations (narrow m) + 1\<rparr>,
                   candidatePairs := cps\<rparr>" and
    b: "\<not> ov \<Longrightarrow> m' = m"
    using Broadphase_unfold[OF assms] by blast
  from t show lt: "unat i < length (testIndices m)"
    by (simp add: arr_get_def split: if_splits)
  from t have tt: "testIndices m ! unat i = test"
    by (simp add: arr_get_def split: if_splits)
  have fl: "flagged m test = ov"
    using s c by (simp add: flagged_def)
  have frame: "sims m' = sims m \<and> testIndices m' = testIndices m \<and> broad m' = broad m"
  proof (cases ov)
    case True
    with a obtain cps where "m' = m\<lparr>narrow := (narrow m)\<lparr>numInvocations := numInvocations (narrow m) + 1\<rparr>,
                   candidatePairs := cps\<rparr>" by blast
    then show ?thesis by simp
  next
    case False
    with b show ?thesis by simp
  qed
  from frame show "sims m' = sims m" by simp
  from frame show "testIndices m' = testIndices m" by simp
  from frame show "broad m' = broad m" by simp
  show "unat (numInvocations (narrow m)) < length (candidatePairs m) \<and>
           numInvocations (narrow m') = numInvocations (narrow m) + 1 \<and>
           candidatePairs m' = (candidatePairs m)[unat (numInvocations (narrow m)) :=
                                  pair_of (testIndices m ! unat i)]"
    if "flagged m (testIndices m ! unat i)"
  proof -
    from that have ov unfolding tt fl .
    with a obtain cps where
      cps: "arr_set (candidatePairs m) (unat (numInvocations (narrow m))) (pair_of test) = Some cps" and
      m': "m' = m\<lparr>narrow := (narrow m)\<lparr>numInvocations := numInvocations (narrow m) + 1\<rparr>,
                   candidatePairs := cps\<rparr>" by blast
    from cps have l: "unat (numInvocations (narrow m)) < length (candidatePairs m)"
      and e: "cps = (candidatePairs m)[unat (numInvocations (narrow m)) := pair_of test]"
      by (simp_all add: arr_set_def split: if_splits)
    show ?thesis unfolding tt using l e m' by simp
  qed
  show "numInvocations (narrow m') = numInvocations (narrow m) \<and>
           candidatePairs m' = candidatePairs m"
    if "\<not> flagged m (testIndices m ! unat i)"
    using that b unfolding tt fl by simp
qed

lemma flagged_cong: "sims m' = sims m \<Longrightarrow> flagged m' = flagged m"
  by (rule ext) (simp add: flagged_def)

lemma claimed_cong: "sims m' = sims m \<Longrightarrow> testIndices m' = testIndices m \<Longrightarrow> claimed m' = claimed m"
  using flagged_cong[of m' m] by (intro ext) (simp add: claimed_def)

lemma Broadphase_run:
  assumes "for_each ord (\<lambda>i m. BroadphaseSystem_run m (of_nat i)) m = Some m'"
      and "\<forall>i \<in> set ord. i < 2 ^ 32"
      and "unat (numInvocations (narrow m)) + length ord < 2 ^ 32"
  shows "sims m' = sims m \<and> testIndices m' = testIndices m \<and> broad m' = broad m \<and>
         (\<forall>i \<in> set ord. i < length (testIndices m)) \<and>
         unat (numInvocations (narrow m')) =
           unat (numInvocations (narrow m)) + length (claimed m ord) \<and>
         (claimed m ord = [] \<or>
          unat (numInvocations (narrow m)) + length (claimed m ord) \<le> length (candidatePairs m)) \<and>
         candidatePairs m' =
           take (unat (numInvocations (narrow m))) (candidatePairs m) @
           map pair_of (claimed m ord) @
           drop (unat (numInvocations (narrow m)) + length (claimed m ord)) (candidatePairs m)"
  using assms
proof (induction ord arbitrary: m)
  case Nil
  then show ?case by (simp add: claimed_def)
next
  case (Cons i ord)
  let ?c = "unat (numInvocations (narrow m))"
  from Cons.prems(1) obtain m1 where
    s1: "BroadphaseSystem_run m (of_nat i) = Some m1" and
    r: "for_each ord (\<lambda>i m. BroadphaseSystem_run m (of_nat i)) m1 = Some m'"
    by (cases "BroadphaseSystem_run m (of_nat i)") simp_all
  from Cons.prems(2) have i32: "i < 2 ^ 32" by simp
  have ui: "unat (of_nat i :: u32) = i"
    using i32 by (simp add: unat_of_nat)
  note st = Broadphase_step[OF s1, unfolded ui]
  have cl: "claimed m1 = claimed m" using st(2,3) by (rule claimed_cong)
  have rest: "\<forall>i \<in> set ord. i < 2 ^ 32" using Cons.prems(2) by simp
  have lenord: "?c + Suc (length ord) < 2 ^ 32" using Cons.prems(3) by simp
  show ?case
  proof (cases "flagged m (testIndices m ! i)")
    case True
    from st(5)[OF True] have
      lt: "?c < length (candidatePairs m)" and
      n1: "numInvocations (narrow m1) = numInvocations (narrow m) + 1" and
      cp1: "candidatePairs m1 = (candidatePairs m)[?c := pair_of (testIndices m ! i)]"
      by blast+
    from lenord have "?c + 1 < 2 ^ 32" by linarith
    then have c1: "unat (numInvocations (narrow m1)) = Suc ?c"
      unfolding n1 by (simp add: unat_word_ariths)
    have p3: "unat (numInvocations (narrow m1)) + length ord < 2 ^ 32"
      using lenord unfolding c1 by simp
    note IH = Cons.IH[OF r rest p3, unfolded c1 cl]
    have clc: "claimed m (i # ord) = testIndices m ! i # claimed m ord"
      using True by (simp add: claimed_def)
    have tk: "take (Suc ?c) (candidatePairs m1) = take ?c (candidatePairs m) @ [pair_of (testIndices m ! i)]"
      using lt unfolding cp1 by (simp add: take_Suc_conv_app_nth)
    have dr: "drop (Suc ?c + length (claimed m ord)) (candidatePairs m1) =
              drop (Suc ?c + length (claimed m ord)) (candidatePairs m)"
      unfolding cp1 by simp
    have len: "length (candidatePairs m1) = length (candidatePairs m)"
      unfolding cp1 by simp
    have 1: "sims m' = sims m \<and> testIndices m' = testIndices m \<and> broad m' = broad m"
      using IH st(2-4) by simp
    have 2: "\<forall>j \<in> set (i # ord). j < length (testIndices m)"
      using IH st(1,3) by simp
    have 3: "unat (numInvocations (narrow m')) = ?c + length (claimed m (i # ord))"
      using IH unfolding clc by simp
    have 4: "?c + length (claimed m (i # ord)) \<le> length (candidatePairs m)"
    proof (cases "claimed m ord = []")
      case True
      then show ?thesis using lt unfolding clc by simp
    next
      case False
      with IH have "Suc ?c + length (claimed m ord) \<le> length (candidatePairs m1)" by blast
      then show ?thesis unfolding clc len by simp
    qed
    have 5: "candidatePairs m' =
           take ?c (candidatePairs m) @ map pair_of (claimed m (i # ord)) @
           drop (?c + length (claimed m (i # ord))) (candidatePairs m)"
    proof -
      from IH have "candidatePairs m' = take (Suc ?c) (candidatePairs m1) @ map pair_of (claimed m ord) @
          drop (Suc ?c + length (claimed m ord)) (candidatePairs m1)" by blast
      then show ?thesis unfolding tk dr clc by simp
    qed
    from 1 2 3 4 5 show ?thesis by blast
  next
    case False
    from st(6)[OF False] have
      n1: "numInvocations (narrow m1) = numInvocations (narrow m)" and
      cp1: "candidatePairs m1 = candidatePairs m"
      by blast+
    have p3: "unat (numInvocations (narrow m1)) + length ord < 2 ^ 32"
      using lenord unfolding n1 by simp
    have clc: "claimed m (i # ord) = claimed m ord"
      using False by (simp add: claimed_def)
    note IH = Cons.IH[OF r rest p3, unfolded n1 cl cp1]
    have 2: "\<forall>j \<in> set (i # ord). j < length (testIndices m)"
      using IH st(1,3) by simp
    from IH 2 st(2-4) show ?thesis unfolding clc by simp
  qed
qed

lemma map_nth_upt_take: "k \<le> length xs \<Longrightarrow> map ((!) xs) [0 ..< k] = take k xs"
  by (rule nth_equalityI) simp_all

lemma mset_map_nth_perm:
  assumes "mset ord = mset [0 ..< k]" and "k \<le> length xs"
  shows "mset (map ((!) xs) ord) = mset (take k xs)"
proof -
  have "mset (map ((!) xs) ord) = image_mset ((!) xs) (mset ord)" by simp
  also have "\<dots> = mset (map ((!) xs) [0 ..< k])" unfolding assms(1) by simp
  finally show ?thesis using assms(2) by (simp add: map_nth_upt_take)
qed

lemma perm_upt_bounds:
  assumes "mset ord = mset [0 ..< k]"
  shows "length ord = k" and "set ord = {0 ..< k}"
proof -
  from assms have "size (mset ord) = size (mset [0 ..< k])" by simp
  then show "length ord = k" by simp
  from assms have "set_mset (mset ord) = set_mset (mset [0 ..< k])" by simp
  then show "set ord = {0 ..< k}" by simp
qed

lemma Narrow_step:
  assumes "NarrowphaseSystem_run fp m k = Some m'"
  shows "unat k < length (candidatePairs m)"
    and "unat (cp_world (candidatePairs m ! unat k)) < length (sims m)"
    and "unat (numContacts (sims m ! unat (cp_world (candidatePairs m ! unat k)))) <
           length (contacts (sims m ! unat (cp_world (candidatePairs m ! unat k))))"
    and "\<exists>nrm. m' = m\<lparr>sims := (sims m)[unat (cp_world (candidatePairs m ! unat k)) :=
           (sims m ! unat (cp_world (candidatePairs m ! unat k)))
             \<lparr>numContacts := numContacts (sims m ! unat (cp_world (candidatePairs m ! unat k))) + 1,
              contacts := (contacts (sims m ! unat (cp_world (candidatePairs m ! unat k))))
                [unat (numContacts (sims m ! unat (cp_world (candidatePairs m ! unat k)))) :=
                   \<lparr>normal = nrm, ct_a = cp_a (candidatePairs m ! unat k),
                    ct_b = cp_b (candidatePairs m ! unat k)\<rparr>]\<rparr>]\<rparr>"
proof -
  from assms obtain c where c: "arr_get (candidatePairs m) (unat k) = Some c"
    by (cases "arr_get (candidatePairs m) (unat k)") (simp_all add: NarrowphaseSystem_run_def)
  from assms c obtain sim where s: "arr_get (sims m) (unat (cp_world c)) = Some sim"
    by (cases "arr_get (sims m) (unat (cp_world c))") (simp_all add: NarrowphaseSystem_run_def)
  from assms c s obtain sim' where n: "narrowPhase True fp sim (cp_a c) (cp_b c) = Some sim'"
    by (cases "narrowPhase True fp sim (cp_a c) (cp_b c)") (simp_all add: NarrowphaseSystem_run_def)
  from assms c s n have m': "m' = m\<lparr>sims := (sims m)[unat (cp_world c) := sim']\<rparr>"
    by (simp add: NarrowphaseSystem_run_def)
  from c show kl: "unat k < length (candidatePairs m)"
    by (simp add: arr_get_def split: if_splits)
  from c have ce: "candidatePairs m ! unat k = c"
    by (simp add: arr_get_def split: if_splits)
  from s show "unat (cp_world (candidatePairs m ! unat k)) < length (sims m)"
    unfolding ce by (simp add: arr_get_def split: if_splits)
  from s have se: "sims m ! unat (cp_world c) = sim"
    by (simp add: arr_get_def split: if_splits)
  from n have "narrowPhase False fp sim (cp_a c) (cp_b c) = Some sim'"
    by (simp add: narrowPhase_variants_equal)
  note E = narrowPhase_effect[OF this]
  from E show "unat (numContacts (sims m ! unat (cp_world (candidatePairs m ! unat k)))) <
           length (contacts (sims m ! unat (cp_world (candidatePairs m ! unat k))))"
    unfolding ce se by simp
  from E m' show "\<exists>nrm. m' = m\<lparr>sims := (sims m)[unat (cp_world (candidatePairs m ! unat k)) :=
           (sims m ! unat (cp_world (candidatePairs m ! unat k)))
             \<lparr>numContacts := numContacts (sims m ! unat (cp_world (candidatePairs m ! unat k))) + 1,
              contacts := (contacts (sims m ! unat (cp_world (candidatePairs m ! unat k))))
                [unat (numContacts (sims m ! unat (cp_world (candidatePairs m ! unat k)))) :=
                   \<lparr>normal = nrm, ct_a = cp_a (candidatePairs m ! unat k),
                    ct_b = cp_b (candidatePairs m ! unat k)\<rparr>]\<rparr>]\<rparr>"
    unfolding ce se by blast
qed

lemma world_pairs_Cons:
  "world_pairs w (c # ps) =
     (if unat (cp_world c) = w then (cp_a c, cp_b c) # world_pairs w ps else world_pairs w ps)"
  by (simp add: world_pairs_def)

lemma Narrow_run:
  assumes "for_each nord (\<lambda>i m. NarrowphaseSystem_run fp m (of_nat i)) m = Some m'"
      and "\<forall>i \<in> set nord. i < 2 ^ 32"
      and "\<forall>sim \<in> set (sims m). length (contacts sim) < 2 ^ 32"
  shows "candidatePairs m' = candidatePairs m \<and> length (sims m') = length (sims m) \<and>
         (\<forall>w < length (sims m). \<exists>new.
            map (\<lambda>ct. (ct_a ct, ct_b ct)) new =
              world_pairs w (map ((!) (candidatePairs m)) nord) \<and>
            contacts (sims m' ! w) =
              take (unat (numContacts (sims m ! w))) (contacts (sims m ! w)) @ new @
              drop (unat (numContacts (sims m ! w)) + length new) (contacts (sims m ! w)) \<and>
            (new = [] \<or> unat (numContacts (sims m ! w)) + length new \<le> length (contacts (sims m ! w))) \<and>
            unat (numContacts (sims m' ! w)) = unat (numContacts (sims m ! w)) + length new)"
  using assms
proof (induction nord arbitrary: m)
  case Nil
  then show ?case by (simp add: world_pairs_def)
next
  case (Cons i nord)
  from Cons.prems(1) obtain m1 where
    s1: "NarrowphaseSystem_run fp m (of_nat i) = Some m1" and
    r: "for_each nord (\<lambda>i m. NarrowphaseSystem_run fp m (of_nat i)) m1 = Some m'"
    by (cases "NarrowphaseSystem_run fp m (of_nat i)") simp_all
  from Cons.prems(2) have i32: "i < 2 ^ 32" by simp
  have ui: "unat (of_nat i :: u32) = i"
    using i32 by (simp add: unat_of_nat)
  note st = Narrow_step[OF s1, unfolded ui]
  define c where "c = candidatePairs m ! i"
  define w0 where "w0 = unat (cp_world c)"
  define sim0 where "sim0 = sims m ! w0"
  define n where "n = unat (numContacts sim0)"
  from st(2) have w0l: "w0 < length (sims m)" unfolding w0_def c_def .
  from st(3) have nl: "n < length (contacts sim0)" unfolding n_def sim0_def w0_def c_def .
  from st(4) obtain nrm where m1: "m1 = m\<lparr>sims := (sims m)[w0 :=
       sim0\<lparr>numContacts := numContacts sim0 + 1,
            contacts := (contacts sim0)[n := \<lparr>normal = nrm, ct_a = cp_a c, ct_b = cp_b c\<rparr>]\<rparr>]\<rparr>"
    unfolding n_def sim0_def w0_def c_def by blast
  let ?ct = "\<lparr>normal = nrm, ct_a = cp_a c, ct_b = cp_b c\<rparr>"
  let ?sim1 = "sim0\<lparr>numContacts := numContacts sim0 + 1, contacts := (contacts sim0)[n := ?ct]\<rparr>"
  have sim0_in: "sim0 \<in> set (sims m)" using w0l unfolding sim0_def by simp
  with Cons.prems(3) have c32: "length (contacts sim0) < 2 ^ 32" by blast
  with nl have "n + 1 < 2 ^ 32" by simp
  then have n1: "unat (numContacts sim0 + 1) = n + 1"
    unfolding n_def by (simp add: unat_word_ariths)
  have cp1: "candidatePairs m1 = candidatePairs m" and sl1: "length (sims m1) = length (sims m)"
    unfolding m1 by simp_all
  have small1: "\<forall>sim \<in> set (sims m1). length (contacts sim) < 2 ^ 32"
  proof
    fix sim assume "sim \<in> set (sims m1)"
    then have "sim \<in> insert ?sim1 (set (sims m))"
      unfolding m1 using set_update_subset_insert[of "sims m" w0 ?sim1] by auto
    then show "length (contacts sim) < 2 ^ 32" using Cons.prems(3) c32 by auto
  qed
  have rest: "\<forall>i \<in> set nord. i < 2 ^ 32" using Cons.prems(2) by simp
  note IH = Cons.IH[OF r rest small1, unfolded cp1 sl1]
  have nth1: "sims m1 ! w = (if w = w0 then ?sim1 else sims m ! w)" if "w < length (sims m)" for w
    unfolding m1 using that w0l by (simp add: nth_list_update)
  show ?case
  proof (intro conjI allI impI)
    from IH show "candidatePairs m' = candidatePairs m" by blast
    from IH show "length (sims m') = length (sims m)" by blast
  next
    fix w assume w: "w < length (sims m)"
    from IH w obtain new' where
      p: "map (\<lambda>ct. (ct_a ct, ct_b ct)) new' = world_pairs w (map ((!) (candidatePairs m)) nord)" and
      cs: "contacts (sims m' ! w) =
            take (unat (numContacts (sims m1 ! w))) (contacts (sims m1 ! w)) @ new' @
            drop (unat (numContacts (sims m1 ! w)) + length new') (contacts (sims m1 ! w))" and
      bd: "new' = [] \<or> unat (numContacts (sims m1 ! w)) + length new' \<le> length (contacts (sims m1 ! w))" and
      nc: "unat (numContacts (sims m' ! w)) = unat (numContacts (sims m1 ! w)) + length new'"
      by blast
    have wp: "world_pairs w (map ((!) (candidatePairs m)) (i # nord)) =
        (if w0 = w then (cp_a c, cp_b c) # world_pairs w (map ((!) (candidatePairs m)) nord)
         else world_pairs w (map ((!) (candidatePairs m)) nord))"
      unfolding w0_def c_def by (simp add: world_pairs_Cons)
    show "\<exists>new. map (\<lambda>ct. (ct_a ct, ct_b ct)) new =
              world_pairs w (map ((!) (candidatePairs m)) (i # nord)) \<and>
            contacts (sims m' ! w) =
              take (unat (numContacts (sims m ! w))) (contacts (sims m ! w)) @ new @
              drop (unat (numContacts (sims m ! w)) + length new) (contacts (sims m ! w)) \<and>
            (new = [] \<or> unat (numContacts (sims m ! w)) + length new \<le> length (contacts (sims m ! w))) \<and>
            unat (numContacts (sims m' ! w)) = unat (numContacts (sims m ! w)) + length new"
    proof (cases "w = w0")
      case True
      have s1w: "sims m1 ! w = ?sim1" using nth1[OF w] True by simp
      have s0w: "sims m ! w = sim0" using True unfolding sim0_def by simp
      have tk: "take (Suc n) ((contacts sim0)[n := ?ct]) = take n (contacts sim0) @ [?ct]"
        using nl by (simp add: take_Suc_conv_app_nth)
      have dr: "drop (Suc (n + length new')) ((contacts sim0)[n := ?ct]) =
                drop (Suc (n + length new')) (contacts sim0)"
        by simp
      have 1: "map (\<lambda>ct. (ct_a ct, ct_b ct)) (?ct # new') =
              world_pairs w (map ((!) (candidatePairs m)) (i # nord))"
        unfolding wp using True p by simp
      have 2: "contacts (sims m' ! w) =
              take n (contacts sim0) @ (?ct # new') @ drop (n + length (?ct # new')) (contacts sim0)"
        using cs unfolding s1w by (simp add: n1 tk dr)
      have 3: "n + length (?ct # new') \<le> length (contacts sim0)"
        using bd nl unfolding s1w by (auto simp: n1)
      have 4: "unat (numContacts (sims m' ! w)) = n + length (?ct # new')"
        using nc unfolding s1w by (simp add: n1)
      from 1 2 3 4 show ?thesis unfolding s0w n_def[symmetric] by blast
    next
      case False
      have s1w: "sims m1 ! w = sims m ! w" using nth1[OF w] False by simp
      from False have wp': "world_pairs w (map ((!) (candidatePairs m)) (i # nord)) =
          world_pairs w (map ((!) (candidatePairs m)) nord)"
        unfolding wp by simp
      from p cs bd nc show ?thesis unfolding s1w wp' by blast
    qed
  qed
qed

lemma Narrow_consumes:
  assumes "for_each nord (\<lambda>i m. NarrowphaseSystem_run fp m (of_nat i)) m = Some m'"
      and "\<forall>i \<in> set nord. i < 2 ^ 32"
      and "\<forall>sim \<in> set (sims m). length (contacts sim) < 2 ^ 32"
      and w: "w < length (sims m)"
  shows "new_contacts (sims m ! w) (sims m' ! w) =
           world_pairs w (map ((!) (candidatePairs m)) nord)"
proof -
  let ?n = "unat (numContacts (sims m ! w))"
  let ?cs = "contacts (sims m ! w)"
  from Narrow_run[OF assms(1-3)] w obtain new where
    p: "map (\<lambda>ct. (ct_a ct, ct_b ct)) new = world_pairs w (map ((!) (candidatePairs m)) nord)" and
    cs: "contacts (sims m' ! w) = take ?n ?cs @ new @ drop (?n + length new) ?cs" and
    bd: "new = [] \<or> ?n + length new \<le> length ?cs" and
    nc: "unat (numContacts (sims m' ! w)) = ?n + length new"
    by blast
  have "take (length new) (drop ?n (contacts (sims m' ! w))) = new"
  proof (cases "new = []")
    case True
    then show ?thesis by simp
  next
    case False
    with bd have "?n \<le> length ?cs" by simp
    then have "length (take ?n ?cs) = ?n" by simp
    then have "drop ?n (contacts (sims m' ! w)) = new @ drop (?n + length new) ?cs"
      unfolding cs by (metis append_eq_conv_conj)
    then show ?thesis by simp
  qed
  then show ?thesis using p by (simp add: new_contacts_def nc)
qed

lemma flagged_world: "flagged m t \<Longrightarrow> unat (ti_world t) < length (sims m)"
  by (auto simp: flagged_def arr_get_def split: option.splits if_splits)

lemma mset_world_pairs:
  "mset ps = mset qs \<Longrightarrow> mset (world_pairs w ps) = mset (world_pairs w qs)"
proof -
  assume a: "mset ps = mset qs"
  have "mset (world_pairs w xs) =
        image_mset (\<lambda>c. (cp_a c, cp_b c)) (filter_mset (\<lambda>c. unat (cp_world c) = w) (mset xs))" for xs
    by (simp add: world_pairs_def)
  then show ?thesis using a by simp
qed


text \<open>
  Claim C3. The counter of the narrow phase is reset by invocation 0 of the
  preprocessing System; the invocations of the broad phase then run, each once, in any
  order \<open>ord\<close>. Afterwards the counter equals the number of slots claimed, which is
  the number of flagged tests; slot \<open>k\<close> below the counter holds the pair of the
  \<open>k\<close>-th flagged test in the order of execution and no other slot was written. When
  the invocations \<open>0, ..., count - 1\<close> of \<open>NarrowphaseSystem::run\<close> have then run, each
  once, in any order \<open>nord\<close>, the contacts they have recorded in each world are those
  of the slots \<open>nord\<close> in this order, one for each invocation, and are, as a multiset,
  exactly the claimed pairs of that world: every claimed slot has been consumed once.
  (The contact arrays are shorter than \<open>2^32\<close>, so that no contact counter wraps.)
\<close>

theorem broadphase_populates_narrowphase:
  assumes pre: "run_invocations (PreprocessSystem_run fp s) pre_ord mgr0 = Some mgr1"
      and zero: "0 \<in> set pre_ord"
      and br: "run_invocations BroadphaseSystem_run ord mgr1 = Some mgr2"
      and perm: "mset ord = mset [0 ..< unat (numInvocations (broad mgr1))]"
      and cons: "mset nord = mset [0 ..< unat (numInvocations (narrow mgr2))]"
      and nar: "run_invocations (NarrowphaseSystem_run fp) nord mgr2 = Some mgr3"
      and small: "\<forall>sim \<in> set (sims mgr2). length (contacts sim) < 2 ^ 32"
  shows "unat (numInvocations (narrow mgr2)) = length (claimed mgr1 ord) \<and>
         mset (claimed mgr1 ord) =
           mset (filter (flagged mgr1)
                   (take (unat (numInvocations (broad mgr1))) (testIndices mgr1))) \<and>
         take (length (claimed mgr1 ord)) (candidatePairs mgr2) = map pair_of (claimed mgr1 ord) \<and>
         drop (length (claimed mgr1 ord)) (candidatePairs mgr2) =
           drop (length (claimed mgr1 ord)) (candidatePairs mgr1) \<and>
         (\<forall>c \<in> set (map pair_of (claimed mgr1 ord)). unat (cp_world c) < length (sims mgr2)) \<and>
         (\<forall>w < length (sims mgr2).
            new_contacts (sims mgr2 ! w) (sims mgr3 ! w) =
              world_pairs w (map (\<lambda>k. candidatePairs mgr2 ! k) nord) \<and>
            mset (new_contacts (sims mgr2 ! w) (sims mgr3 ! w)) =
              mset (world_pairs w (map pair_of (claimed mgr1 ord))))"
proof -
  let ?K = "unat (numInvocations (broad mgr1))"
  let ?cl = "claimed mgr1 ord"
  from Preprocess_run[OF pre[unfolded run_invocations_def]] zero
  have n0: "numInvocations (narrow mgr1) = 0" by blast
  have K32: "?K < 2 ^ 32" using unsigned_less[of "numInvocations (broad mgr1)"] by simp
  note pb = perm_upt_bounds[OF perm]
  have b1: "\<forall>i \<in> set ord. i < 2 ^ 32" using pb(2) K32 by auto
  have b2: "unat (numInvocations (narrow mgr1)) + length ord < 2 ^ 32"
    using pb(1) K32 unfolding n0 by simp
  note R = Broadphase_run[OF br[unfolded run_invocations_def] b1 b2, unfolded n0]
  from R have cnt: "unat (numInvocations (narrow mgr2)) = length ?cl" by simp
  from R have cps: "candidatePairs mgr2 = map pair_of ?cl @ drop (length ?cl) (candidatePairs mgr1)"
    by simp
  from R have inb: "\<forall>i \<in> set ord. i < length (testIndices mgr1)" by blast
  from R have sm: "sims mgr2 = sims mgr1" by blast
  have Kle: "?K \<le> length (testIndices mgr1)"
  proof (cases "?K = 0")
    case True
    then show ?thesis by simp
  next
    case False
    then have "?K - 1 \<in> set ord" unfolding pb(2) by simp
    with inb have "?K - 1 < length (testIndices mgr1)" by blast
    with False show ?thesis by simp
  qed
  have c2: "mset ?cl = mset (filter (flagged mgr1) (take ?K (testIndices mgr1)))"
  proof -
    have "mset ?cl = filter_mset (flagged mgr1) (mset (map ((!) (testIndices mgr1)) ord))"
      unfolding claimed_def by simp
    also have "\<dots> = filter_mset (flagged mgr1) (mset (take ?K (testIndices mgr1)))"
      unfolding mset_map_nth_perm[OF perm Kle] ..
    finally show ?thesis by simp
  qed
  have c3: "take (length ?cl) (candidatePairs mgr2) = map pair_of ?cl"
    by (subst cps) simp
  have c4: "drop (length ?cl) (candidatePairs mgr2) = drop (length ?cl) (candidatePairs mgr1)"
    by (subst cps) simp
  have le: "length ?cl \<le> length (candidatePairs mgr2)"
    by (subst cps) simp
  have rd: "mset (map ((!) (candidatePairs mgr2)) nord) = mset (map pair_of ?cl)"
    using mset_map_nth_perm[OF cons[unfolded cnt] le] unfolding c3 .
  have c5: "\<forall>c \<in> set (map pair_of ?cl). unat (cp_world c) < length (sims mgr2)"
    unfolding sm by (auto simp: claimed_def pair_of_def dest: flagged_world)
  have N32: "unat (numInvocations (narrow mgr2)) < 2 ^ 32"
    using unsigned_less[of "numInvocations (narrow mgr2)"] by simp
  have n32: "\<forall>i \<in> set nord. i < 2 ^ 32"
    using perm_upt_bounds(2)[OF cons] N32 by auto
  have c6: "new_contacts (sims mgr2 ! w) (sims mgr3 ! w) =
              world_pairs w (map (\<lambda>k. candidatePairs mgr2 ! k) nord) \<and>
            mset (new_contacts (sims mgr2 ! w) (sims mgr3 ! w)) =
              mset (world_pairs w (map pair_of ?cl))"
    if w: "w < length (sims mgr2)" for w
  proof -
    note N = Narrow_consumes[OF nar[unfolded run_invocations_def] n32 small w]
    from mset_world_pairs[OF rd, of w] N show ?thesis by simp
  qed
  from cnt c2 c3 c4 c5 c6 show ?thesis by blast
qed

theorem broadphase_populates_narrowphase_witness:
  "run_invocations (PreprocessSystem_run example_fops unit_scale) [1, 0] example_mgr =
     Some example_preprocessed \<and>
   run_invocations BroadphaseSystem_run [3, 1, 0, 2] example_preprocessed =
     Some example_broadphased \<and>
   run_invocations (NarrowphaseSystem_run example_fops) [1, 0] example_broadphased =
     Some example_narrowed \<and>
   unat (numInvocations (narrow example_broadphased)) = 2 \<and>
   claimed example_preprocessed [3, 1, 0, 2] =
     [\<lparr>ti_world = 0, ti_a = 0, ti_b = 1\<rparr>, \<lparr>ti_world = 0, ti_a = 1, ti_b = 0\<rparr>] \<and>
   take 2 (candidatePairs example_broadphased) =
     [\<lparr>cp_world = 0, cp_a = 0, cp_b = 1\<rparr>, \<lparr>cp_world = 0, cp_a = 1, cp_b = 0\<rparr>] \<and>
   new_contacts (sims example_broadphased ! 0) (sims example_narrowed ! 0) = [(1, 0), (0, 1)] \<and>
   mset (new_contacts (sims example_broadphased ! 0) (sims example_narrowed ! 0)) =
     mset [(0, 1), (1, 0)]"
proof -
  have h1: "run_invocations (PreprocessSystem_run example_fops unit_scale) [1, 0] example_mgr =
     Some example_preprocessed"
    by code_simp
  have h2: "0 \<in> set [1, 0 :: nat]" by simp
  have h3: "run_invocations BroadphaseSystem_run [3, 1, 0, 2] example_preprocessed =
     Some example_broadphased"
    by code_simp
  have k: "unat (numInvocations (broad example_preprocessed)) = 4" by code_simp
  have h4: "mset [3, 1, 0, 2] = mset [0 ..< unat (numInvocations (broad example_preprocessed))]"
    unfolding k by code_simp
  have n: "unat (numInvocations (narrow example_broadphased)) = 2" by code_simp
  have h5: "mset [1, 0] = mset [0 ..< unat (numInvocations (narrow example_broadphased))]"
    unfolding n by code_simp
  have h6: "run_invocations (NarrowphaseSystem_run example_fops) [1, 0] example_broadphased =
     Some example_narrowed"
    by code_simp
  have h7: "\<forall>sim \<in> set (sims example_broadphased). length (contacts sim) < 2 ^ 32"
    by (simp add: example_broadphased_def example_preprocessed_def example_mgr_def example_sim_def)
  have w: "0 < length (sims example_broadphased)" by code_simp
  have cl: "claimed example_preprocessed [3, 1, 0, 2] =
     [\<lparr>ti_world = 0, ti_a = 0, ti_b = 1\<rparr>, \<lparr>ti_world = 0, ti_a = 1, ti_b = 0\<rparr>]"
    by code_simp
  have wp1: "world_pairs 0 (map (\<lambda>k. candidatePairs example_broadphased ! k) [1, 0]) = [(1, 0), (0, 1)]"
    by code_simp
  have wp2: "world_pairs 0 (map pair_of
       [\<lparr>ti_world = 0, ti_a = 0, ti_b = 1\<rparr>, \<lparr>ti_world = 0, ti_a = 1, ti_b = 0\<rparr>]) = [(0, 1), (1, 0)]"
    by code_simp
  note T = broadphase_populates_narrowphase[OF h1 h2 h3 h4 h5 h6 h7, unfolded cl]
  from T have t3: "take 2 (candidatePairs example_broadphased) =
     [\<lparr>cp_world = 0, cp_a = 0, cp_b = 1\<rparr>, \<lparr>cp_world = 0, cp_a = 1, cp_b = 0\<rparr>]"
    by (simp add: pair_of_def numeral_2_eq_2)
  from T w have t6: "new_contacts (sims example_broadphased ! 0) (sims example_narrowed ! 0) =
        world_pairs 0 (map (\<lambda>k. candidatePairs example_broadphased ! k) [1, 0]) \<and>
      mset (new_contacts (sims example_broadphased ! 0) (sims example_narrowed ! 0)) =
        mset (world_pairs 0 (map pair_of
          [\<lparr>ti_world = 0, ti_a = 0, ti_b = 1\<rparr>, \<lparr>ti_world = 0, ti_a = 1, ti_b = 0\<rparr>]))"
    by blast
  from h1 h3 h6 n cl t3 t6[unfolded wp1 wp2] show ?thesis by blast
qed

section \<open>The contact counter at the end of an epoch\<close>





section \<open>Creating and running jobs\<close>

lemma makeJob_empty:
  "is_empty fn \<Longrightarrow> makeJob cfg fn t jm = Inr (\<lparr>func = EmptyEntry fn, data = None\<rparr>, jm)"
  by (simp add: makeJob_def)

lemma alloc_Inr:
  assumes "alloc cfg t sz al jm = Inr (p, jm1)"
  shows "p = next_addr (alloc_state jm)"
    and "blocks (alloc_state jm1) p = Some \<lparr>blk_size = sz, blk_arena = nat t, blk_obj = None\<rparr>"
    and "events jm1 = events jm @ [EvAlloc t sz al p]"
    and "user jm1 = user jm"
    and "valid_worker jm t"
  using assms
  by (auto simp: alloc_def Let_def split: if_splits)

lemma alloc_not_config:
  "sz \<le> maxJobSize cfg \<Longrightarrow> al \<le> maxJobAlignment cfg \<Longrightarrow> alloc cfg t sz al jm \<noteq> Inl ConfigurationError"
  by (simp add: alloc_def Let_def not_less)

lemma alloc_errors:
  "alloc cfg t sz al jm = Inl e \<Longrightarrow> e \<in> {ConfigurationError, InvalidWorker, ResourceExhaustion}"
  by (auto simp: alloc_def Let_def split: if_splits)

lemma makeJob_stored:
  assumes ne: "\<not> is_empty fn" and mk: "makeJob cfg fn t jm = Inr (job, jm1)"
  shows "job = \<lparr>func = StoredEntry (sizeof fn), data = Some (next_addr (alloc_state jm))\<rparr>"
    and "blocks (alloc_state jm1) (next_addr (alloc_state jm)) =
           Some \<lparr>blk_size = sizeof fn, blk_arena = nat t, blk_obj = Some fn\<rparr>"
    and "events jm1 = events jm @ [EvAlloc t (sizeof fn) (alignment_of fn) (next_addr (alloc_state jm))]"
    and "user jm1 = user jm"
proof -
  from ne mk have lim: "sizeof fn \<le> maxJobSize cfg" "alignment_of fn \<le> maxJobAlignment cfg"
    "isPower2 (alignment_of fn)"
    by (simp_all add: makeJob_def Let_def split: if_splits)
  from ne mk lim obtain p jma where
    al: "alloc cfg t (sizeof fn) (alignment_of fn) jm = Inr (p, jma)"
    by (cases "alloc cfg t (sizeof fn) (alignment_of fn) jm") (auto simp: makeJob_def Let_def)
  note A = alloc_Inr[OF al]
  from ne mk lim al A(2) have
    j: "job = \<lparr>func = StoredEntry (sizeof fn), data = Some p\<rparr>" and
    m: "jm1 = jma\<lparr>alloc_state := (alloc_state jma)\<lparr>blocks :=
           (blocks (alloc_state jma))(p \<mapsto> \<lparr>blk_size = sizeof fn, blk_arena = nat t, blk_obj = Some fn\<rparr>)\<rparr>\<rparr>"
    by (simp_all add: makeJob_def Let_def placement_new_def)
  from j A(1) show "job = \<lparr>func = StoredEntry (sizeof fn), data = Some (next_addr (alloc_state jm))\<rparr>"
    by simp
  from m A(1) show "blocks (alloc_state jm1) (next_addr (alloc_state jm)) =
           Some \<lparr>blk_size = sizeof fn, blk_arena = nat t, blk_obj = Some fn\<rparr>"
    by simp
  from m A(1,3) show "events jm1 = events jm @ [EvAlloc t (sizeof fn) (alignment_of fn) (next_addr (alloc_state jm))]"
    by simp
  from m A(4) show "user jm1 = user jm" by simp
qed

lemma run_stored:
  assumes blk: "blocks (alloc_state st) p = Some \<lparr>blk_size = sz, blk_arena = ar, blk_obj = Some fn\<rparr>"
      and vw: "valid_worker st (worker_idx_of ctx)"
  shows "\<exists>st'. run_func (StoredEntry js) ctx (Some p) st = Inr st' \<and>
           events st' = events st @ [EvCall (Some p), EvDestroy p, EvDealloc (worker_idx_of ctx) p (ucast js)] \<and>
           user st' = call fn ctx (user st) \<and>
           blocks (alloc_state st') p = None"
  using assms
  by (simp add: deallocJob_def dealloc_def valid_worker_def Let_def)

lemma run_stored_freed:
  "blocks (alloc_state st) p = None \<Longrightarrow> run_func (StoredEntry js) ctx (Some p) st = Inl InvalidPointer"
  by simp

text \<open>
  Claim C5. A job made from a non-empty callable holds the callable in storage taken
  from the allocator of the creating thread \<open>t\<close>. Run by any worker, in any later state
  in which that storage is untouched, its stored function calls the callable once,
  destroys it and then frees the storage, once, through the allocator of the worker that
  runs it; the storage is then no longer live, and running the function again is a fault.
\<close>

theorem stored_job_runs_and_frees_once:
  assumes ne: "\<not> is_empty fn"
      and mk: "makeJob cfg fn t jm = Inr (job, jm1)"
      and keep: "blocks (alloc_state st) (next_addr (alloc_state jm)) =
                 blocks (alloc_state jm1) (next_addr (alloc_state jm))"
      and vw: "valid_worker st (worker_idx_of ctx)"
  shows "data job = Some (next_addr (alloc_state jm)) \<and>
         events jm1 = events jm @
           [EvAlloc t (sizeof fn) (alignment_of fn) (next_addr (alloc_state jm))] \<and>
         (\<exists>st'. run_func (func job) ctx (data job) st = Inr st' \<and>
            events st' = events st @
              [EvCall (data job), EvDestroy (next_addr (alloc_state jm)),
               EvDealloc (worker_idx_of ctx) (next_addr (alloc_state jm)) (ucast (sizeof fn))] \<and>
            user st' = call fn ctx (user st) \<and>
            blocks (alloc_state st') (next_addr (alloc_state jm)) = None \<and>
            run_func (func job) ctx' (data job) st' = Inl InvalidPointer)"
proof -
  note M = makeJob_stored[OF ne mk]
  from keep M(2) have blk: "blocks (alloc_state st) (next_addr (alloc_state jm)) =
      Some \<lparr>blk_size = sizeof fn, blk_arena = nat t, blk_obj = Some fn\<rparr>" by simp
  from run_stored[OF blk vw, of "sizeof fn"] obtain st' where
    r: "run_func (StoredEntry (sizeof fn)) ctx (Some (next_addr (alloc_state jm))) st = Inr st'" and
    e: "events st' = events st @ [EvCall (Some (next_addr (alloc_state jm))),
          EvDestroy (next_addr (alloc_state jm)),
          EvDealloc (worker_idx_of ctx) (next_addr (alloc_state jm)) (ucast (sizeof fn))]" and
    u: "user st' = call fn ctx (user st)" and
    b: "blocks (alloc_state st') (next_addr (alloc_state jm)) = None"
    by blast
  note f = run_stored_freed[OF b, of "sizeof fn" ctx']
  from M(1) have d: "data job = Some (next_addr (alloc_state jm))" and fj: "func job = StoredEntry (sizeof fn)"
    by simp_all
  show ?thesis unfolding d fj using M(3) r e u b f by blast
qed


theorem stored_job_runs_and_frees_once_witness:
  "\<exists>job jm1 st'.
     makeJob example_cfg capture_fn 0 example_jm = Inr (job, jm1) \<and>
     data job = Some 64 \<and>
     run_func (func job) \<lparr>worker_idx_of = 1\<rparr> (data job) jm1 = Inr st' \<and>
     events st' = [EvAlloc 0 16 8 64, EvCall (Some 64), EvDestroy 64, EvDealloc 1 64 16] \<and>
     user st' = 5 \<and>
     run_func (func job) \<lparr>worker_idx_of = 0\<rparr> (data job) st' = Inl InvalidPointer"
proof -
  have ne: "\<not> is_empty capture_fn" by (simp add: capture_fn_def)
  have "\<exists>r. makeJob example_cfg capture_fn 0 example_jm = Inr r"
    by (simp add: makeJob_def alloc_def placement_new_def valid_worker_def isPower2_def
          example_cfg_def capture_fn_def example_jm_def Let_def)
  then obtain job jm1 where mk: "makeJob example_cfg capture_fn 0 example_jm = Inr (job, jm1)"
    by force
  have vw: "valid_worker jm1 (worker_idx_of \<lparr>worker_idx_of = 1\<rparr>)"
    using mk
    by (auto simp: makeJob_def alloc_def placement_new_def valid_worker_def isPower2_def
          example_cfg_def capture_fn_def example_jm_def Let_def)
  have ev: "events example_jm = []" "user example_jm = 0" "next_addr (alloc_state example_jm) = 64"
    by (simp_all add: example_jm_def)
  have sz: "sizeof capture_fn = 16" "alignment_of capture_fn = 8" "call capture_fn c u = u + 5" for c u
    by (simp_all add: capture_fn_def)
  note u1 = makeJob_stored(4)[OF ne mk]
  from stored_job_runs_and_frees_once[OF ne mk refl vw, of "\<lparr>worker_idx_of = 0\<rparr>"] mk u1
  show ?thesis
    unfolding ev sz by auto
qed

section \<open>Empty callables\<close>



section \<open>The limits on a payload\<close>

text \<open>
  An empty callable declared with an alignment of 256 bytes exceeds the alignment limit
  of 128 and is accepted all the same: the checks sit in the branch for non-empty
  callables.
\<close>

theorem empty_payload_not_checked:
  "maxJobAlignment example_cfg < alignment_of aligned_empty_fn \<and>
   makeJob example_cfg aligned_empty_fn 0 example_jm =
     Inr (\<lparr>func = EmptyEntry aligned_empty_fn, data = None\<rparr>, example_jm)"
proof -
  have "is_empty aligned_empty_fn" by (simp add: aligned_empty_fn_def)
  then have "makeJob example_cfg aligned_empty_fn 0 example_jm =
     Inr (\<lparr>func = EmptyEntry aligned_empty_fn, data = None\<rparr>, example_jm)"
    by (rule makeJob_empty)
  moreover have "maxJobAlignment example_cfg < alignment_of aligned_empty_fn"
    by (simp add: example_cfg_def aligned_empty_fn_def)
  ultimately show ?thesis by blast
qed

lemma makeJob_rejects:
  assumes "\<not> is_empty fn" and "maxJobSize cfg < sizeof fn \<or> maxJobAlignment cfg < alignment_of fn"
  shows "makeJob cfg fn t jm \<in> {Inl JobTooLarge, Inl JobAlignmentTooLarge}"
  using assms by (auto simp: makeJob_def Let_def not_le)

lemma makeJob_within_limits:
  assumes ne: "\<not> is_empty fn" and sz: "sizeof fn \<le> maxJobSize cfg"
      and al: "alignment_of fn \<le> maxJobAlignment cfg" and p2: "isPower2 (alignment_of fn)"
  shows "makeJob cfg fn t jm \<notin>
           {Inl JobTooLarge, Inl JobAlignmentTooLarge, Inl JobAlignmentNotPower2, Inl ConfigurationError}"
proof (cases "alloc cfg t (sizeof fn) (alignment_of fn) jm")
  case (Inl e)
  with alloc_not_config[OF sz al, of t jm] alloc_errors[OF Inl]
  have "e = InvalidWorker \<or> e = ResourceExhaustion" by auto
  moreover from Inl ne sz al p2 have "makeJob cfg fn t jm = Inl e"
    by (simp add: makeJob_def Let_def)
  ultimately show ?thesis by auto
next
  case (Inr r)
  obtain p jma where r: "r = (p, jma)" by (cases r)
  from alloc_Inr(2)[OF Inr[unfolded r]] have "\<exists>jmb. placement_new p fn jma = Inr jmb"
    by (simp add: placement_new_def)
  with Inr r ne sz al p2 have "\<exists>res. makeJob cfg fn t jm = Inr res"
    by (auto simp: makeJob_def Let_def)
  then show ?thesis by auto
qed

text \<open>
  Claim C6, amended. A non-empty payload whose size or alignment exceeds the limit of
  the allocator is rejected by \<open>makeJob\<close> with the error of the limit it breaks, no
  state being produced. A non-empty payload within both limits, its alignment a power
  of two as every alignment of a C++ type is, never meets a limit check: creation can
  only fail in the allocator, for lack of memory or a bad worker index. A job that is
  created has its payload within the limits and stored at its full size. (An empty
  callable is never checked.)
\<close>

theorem nonempty_payload_limits:
  "(\<not> is_empty fn \<and> (maxJobSize cfg < sizeof fn \<or> maxJobAlignment cfg < alignment_of fn) \<longrightarrow>
      makeJob cfg fn t jm \<in> {Inl JobTooLarge, Inl JobAlignmentTooLarge}) \<and>
   (\<not> is_empty fn \<and> sizeof fn \<le> maxJobSize cfg \<and> alignment_of fn \<le> maxJobAlignment cfg \<and>
    isPower2 (alignment_of fn) \<longrightarrow>
      makeJob cfg fn t jm \<notin>
        {Inl JobTooLarge, Inl JobAlignmentTooLarge, Inl JobAlignmentNotPower2, Inl ConfigurationError}) \<and>
   (\<not> is_empty fn \<and> makeJob cfg fn t jm = Inr (job, jm1) \<longrightarrow>
      sizeof fn \<le> maxJobSize cfg \<and> alignment_of fn \<le> maxJobAlignment cfg \<and>
      blocks (alloc_state jm1) (next_addr (alloc_state jm)) =
        Some \<lparr>blk_size = sizeof fn, blk_arena = nat t, blk_obj = Some fn\<rparr>)"
proof (intro conjI impI)
  assume "\<not> is_empty fn \<and> (maxJobSize cfg < sizeof fn \<or> maxJobAlignment cfg < alignment_of fn)"
  then show "makeJob cfg fn t jm \<in> {Inl JobTooLarge, Inl JobAlignmentTooLarge}"
    using makeJob_rejects by blast
next
  assume "\<not> is_empty fn \<and> sizeof fn \<le> maxJobSize cfg \<and> alignment_of fn \<le> maxJobAlignment cfg \<and>
    isPower2 (alignment_of fn)"
  then show "makeJob cfg fn t jm \<notin>
        {Inl JobTooLarge, Inl JobAlignmentTooLarge, Inl JobAlignmentNotPower2, Inl ConfigurationError}"
    using makeJob_within_limits by blast
next
  assume a: "\<not> is_empty fn \<and> makeJob cfg fn t jm = Inr (job, jm1)"
  then show "sizeof fn \<le> maxJobSize cfg"
    by (auto simp: makeJob_def Let_def split: if_splits)
  from a show "alignment_of fn \<le> maxJobAlignment cfg"
    by (auto simp: makeJob_def Let_def split: if_splits)
  from a makeJob_stored(2) show "blocks (alloc_state jm1) (next_addr (alloc_state jm)) =
        Some \<lparr>blk_size = sizeof fn, blk_arena = nat t, blk_obj = Some fn\<rparr>"
    by blast
qed

theorem nonempty_payload_limits_witness:
  "makeJob example_cfg large_fn 0 example_jm = Inl JobTooLarge \<and>
   (\<exists>job jm1. makeJob example_cfg capture_fn 0 example_jm = Inr (job, jm1) \<and>
      blocks (alloc_state jm1) 64 = Some \<lparr>blk_size = 16, blk_arena = 0, blk_obj = Some capture_fn\<rparr>)"
proof -
  have l: "\<not> is_empty large_fn \<and>
      (maxJobSize example_cfg < sizeof large_fn \<or> maxJobAlignment example_cfg < alignment_of large_fn)"
    by (simp add: large_fn_def example_cfg_def)
  have al: "alignment_of large_fn \<le> maxJobAlignment example_cfg"
    by (simp add: large_fn_def example_cfg_def)
  from nonempty_payload_limits[of large_fn example_cfg 0 example_jm] l
  have "makeJob example_cfg large_fn 0 example_jm \<in> {Inl JobTooLarge, Inl JobAlignmentTooLarge}"
    by blast
  moreover have "makeJob example_cfg large_fn 0 example_jm \<noteq> Inl JobAlignmentTooLarge"
    using al l by (auto simp: makeJob_def Let_def)
  ultimately have 1: "makeJob example_cfg large_fn 0 example_jm = Inl JobTooLarge" by blast
  have c: "\<not> is_empty capture_fn \<and> sizeof capture_fn \<le> maxJobSize example_cfg \<and>
      alignment_of capture_fn \<le> maxJobAlignment example_cfg \<and> isPower2 (alignment_of capture_fn)"
    by (simp add: capture_fn_def example_cfg_def isPower2_def)
  have "\<exists>r. makeJob example_cfg capture_fn 0 example_jm = Inr r"
    by (simp add: makeJob_def alloc_def placement_new_def valid_worker_def isPower2_def
          example_cfg_def capture_fn_def example_jm_def Let_def)
  then obtain job jm1 where mk: "makeJob example_cfg capture_fn 0 example_jm = Inr (job, jm1)"
    by force
  have v: "next_addr (alloc_state example_jm) = 64" "sizeof capture_fn = 16"
    by (simp_all add: example_jm_def capture_fn_def)
  from nonempty_payload_limits[of capture_fn example_cfg 0 example_jm job jm1] c mk
  have "blocks (alloc_state jm1) 64 = Some \<lparr>blk_size = 16, blk_arena = 0, blk_obj = Some capture_fn\<rparr>"
    unfolding v by simp
  with 1 mk show ?thesis by blast
qed

section \<open>Submitting a job with dependencies\<close>

text \<open>
  Claim C1 at a failing input. Worker 1 submits a job that names job 0, which has not
  completed, as its dependency. \<open>Context::queueJob\<close> drops the dependency list, so
  the result is the same as with no dependency: the new job (identifier 1) is in a run
  queue at once and is not held. Given the dependency, the manager would have held it.
\<close>

theorem queueJob_ignores_dependencies:
  "0 \<notin> set (completed example_jm) \<and>
   Context_queueJob example_cfg \<lparr>worker_idx_of = 1\<rparr> empty_fn False [0] example_jm =
     Context_queueJob example_cfg \<lparr>worker_idx_of = 1\<rparr> empty_fn False [] example_jm \<and>
   (\<exists>jm'. Context_queueJob example_cfg \<lparr>worker_idx_of = 1\<rparr> empty_fn False [0] example_jm = Inr (1, jm') \<and>
      eligible jm' 1 \<and> \<not> held jm' 1) \<and>
   (\<exists>jm'. queueJob6 1 (EmptyEntry empty_fn) None [0] 1 Normal example_jm = Inr (1, jm') \<and>
      held jm' 1 \<and> \<not> eligible jm' 1)"
  by (simp add: Context_queueJob_def JobManager_queueJob_def queueJob6_def makeJob_def
        eligible_def held_def example_jm_def empty_fn_def Let_def)

section \<open>The task graph: what a schedule cannot break\<close>

lemma begun_append: "begun s (h1 @ h2) = begun s h1 @ begun s h2"
  by (induction s h1 rule: begun.induct) simp_all

lemma ended_append: "ended s (h1 @ h2) = ended s h1 @ ended s h2"
  by (induction s h1 rule: ended.induct) simp_all

lemma begun_mem: "Begin s i \<in> set h \<Longrightarrow> i \<in> set (begun s h)"
  by (induction s h rule: begun.induct) auto

lemma active_of_mem: "(s, i) \<in> set (active st) \<Longrightarrow> i \<in> set (active_of s st)"
  by (force simp: active_of_def)

lemma mset_active_of:
  "mset (active_of s st) = image_mset snd (filter_mset (\<lambda>e. fst e = s) (mset (active st)))"
  by (simp add: active_of_def)

lemma mset_active_of_remove1:
  assumes "(s', i) \<in> set (active st)"
  shows "mset (active_of s (st\<lparr>infos := xs, active := remove1 (s', i) (active st), history := h\<rparr>)) =
         (if s' = s then mset (active_of s st) - {#i#} else mset (active_of s st))"
proof -
  from assms have m: "(s', i) \<in># mset (active st)" by simp
  have "filter_mset (\<lambda>e. fst e = s) (mset (active st) - {#(s', i)#}) =
        filter_mset (\<lambda>e. fst e = s) (mset (active st)) - (if s' = s then {#(s', i)#} else {#})"
    by simp
  moreover have "s' = s \<Longrightarrow> (s', i) \<in># filter_mset (\<lambda>e. fst e = s) (mset (active st))"
    using m by simp
  ultimately show ?thesis
    by (auto simp: mset_active_of image_mset_Diff)
qed

lemma tg_invD:
  assumes "tg_inv g st" and "s < length g"
  shows "begun s (history st) = [0 ..< curOffset (infos st ! s)]"
    and "mset (ended s (history st)) + mset (active_of s st) = mset [0 ..< curOffset (infos st ! s)]"
    and "numFinished (infos st ! s) = length (ended s (history st))"
    and "curOffset (infos st ! s) \<le> sys_count (infos st ! s)"
    and "remainingDeps (infos st ! s) =
           length (filter (\<lambda>d. \<not> is_done st d) (dependencies (g ! s)))"
    and "completedFlag (infos st ! s) \<Longrightarrow>
           remainingDeps (infos st ! s) = 0 \<and> numFinished (infos st ! s) = sys_count (infos st ! s)"
    and "0 < remainingDeps (infos st ! s) \<Longrightarrow> curOffset (infos st ! s) = 0"
    and "fixed_count (g ! s) = Some k \<Longrightarrow> sys_count (infos st ! s) = k"
  using assms unfolding tg_inv_def sys_inv_def Let_def by blast+

lemma tg_inv_length: "tg_inv g st \<Longrightarrow> length (infos st) = length g"
  by (simp add: tg_inv_def)

lemma tg_invI:
  assumes "length (infos st) = length g"
    and "\<And>s. s < length g \<Longrightarrow> begun s (history st) = [0 ..< curOffset (infos st ! s)]"
    and "\<And>s. s < length g \<Longrightarrow>
           mset (ended s (history st)) + mset (active_of s st) = mset [0 ..< curOffset (infos st ! s)]"
    and "\<And>s. s < length g \<Longrightarrow> numFinished (infos st ! s) = length (ended s (history st))"
    and "\<And>s. s < length g \<Longrightarrow> curOffset (infos st ! s) \<le> sys_count (infos st ! s)"
    and "\<And>s. s < length g \<Longrightarrow> remainingDeps (infos st ! s) =
           length (filter (\<lambda>d. \<not> is_done st d) (dependencies (g ! s)))"
    and "\<And>s. s < length g \<Longrightarrow> completedFlag (infos st ! s) \<Longrightarrow>
           remainingDeps (infos st ! s) = 0 \<and> numFinished (infos st ! s) = sys_count (infos st ! s)"
    and "\<And>s. s < length g \<Longrightarrow> 0 < remainingDeps (infos st ! s) \<Longrightarrow> curOffset (infos st ! s) = 0"
    and "\<And>s k. s < length g \<Longrightarrow> fixed_count (g ! s) = Some k \<Longrightarrow> sys_count (infos st ! s) = k"
  shows "tg_inv g st"
  unfolding tg_inv_def sys_inv_def Let_def using assms by blast

text \<open>A System that has completed has handed out all its indices and has nothing running.\<close>

lemma done_quiet:
  assumes inv: "tg_inv g st" and d: "is_done st s"
  shows "s < length g" and "curOffset (infos st ! s) = sys_count (infos st ! s)"
    and "active_of s st = []" and "remainingDeps (infos st ! s) = 0"
    and "mset (ended s (history st)) = mset [0 ..< sys_count (infos st ! s)]"
proof -
  from d inv show s: "s < length g" by (simp add: is_done_def tg_inv_length)
  from d have c: "completedFlag (infos st ! s)" by (simp add: is_done_def)
  note I = tg_invD[OF inv s]
  from I(6)[OF c] show "remainingDeps (infos st ! s) = 0" by simp
  from I(6)[OF c] I(3) have n: "length (ended s (history st)) = sys_count (infos st ! s)" by simp
  from I(2) have "size (mset (ended s (history st)) + mset (active_of s st)) =
      size (mset [0 ..< curOffset (infos st ! s)])" by simp
  then have sz: "length (ended s (history st)) + length (active_of s st) = curOffset (infos st ! s)"
    by simp
  with n I(4) show co: "curOffset (infos st ! s) = sys_count (infos st ! s)" by simp
  from sz n I(4) have "length (active_of s st) = 0" by linarith
  then show a: "active_of s st = []" by simp
  from I(2) show "mset (ended s (history st)) = mset [0 ..< sys_count (infos st ! s)]"
    unfolding a co by simp
qed

text \<open>A System of which an invocation has begun has all its dependencies completed.\<close>

lemma ready_deps_done:
  assumes inv: "tg_inv g st" and s: "s < length g"
      and r: "remainingDeps (infos st ! s) = 0" and d: "d \<in> set (dependencies (g ! s))"
  shows "is_done st d"
proof -
  from tg_invD(5)[OF inv s] r have "filter (\<lambda>d. \<not> is_done st d) (dependencies (g ! s)) = []"
    by simp
  with d show ?thesis by (simp add: filter_empty_conv)
qed

lemma begun_ready:
  assumes inv: "tg_inv g st" and s: "s < length g" and b: "Begin s j \<in> set (history st)"
  shows "remainingDeps (infos st ! s) = 0"
proof (rule ccontr)
  assume "remainingDeps (infos st ! s) \<noteq> 0"
  then have "curOffset (infos st ! s) = 0" using tg_invD(7)[OF inv s] by simp
  with tg_invD(1)[OF inv s] have "begun s (history st) = []" by simp
  with begun_mem[OF b] show False by simp
qed

subsection \<open>The steps\<close>

lemma dispatch_Some:
  assumes "dispatch s st = Some st'"
  shows "s < length (infos st)" and "remainingDeps (infos st ! s) = 0"
    and "curOffset (infos st ! s) < sys_count (infos st ! s)"
    and "st' = st\<lparr>infos := (infos st)[s := (infos st ! s)\<lparr>curOffset := curOffset (infos st ! s) + 1\<rparr>],
                   active := (s, curOffset (infos st ! s)) # active st,
                   history := history st @ [Begin s (curOffset (infos st ! s))]\<rparr>"
  using assms by (auto simp: dispatch_def arr_get_def split: if_splits)

lemma finish_Some:
  assumes "finish s i st = Some st'"
  shows "s < length (infos st)" and "(s, i) \<in> set (active st)"
    and "st' = st\<lparr>infos := (infos st)[s := (infos st ! s)\<lparr>numFinished := numFinished (infos st ! s) + 1\<rparr>],
                   active := remove1 (s, i) (active st),
                   history := history st @ [End s i]\<rparr>"
  using assms by (auto simp: finish_def arr_get_def split: if_splits)

lemma complete_Some:
  assumes "complete g s st = Some st'"
  shows "s < length (infos st)" and "remainingDeps (infos st ! s) = 0"
    and "\<not> completedFlag (infos st ! s)"
    and "numFinished (infos st ! s) = sys_count (infos st ! s)"
    and "st' = st\<lparr>infos := notify g s ((infos st)[s := (infos st ! s)\<lparr>completedFlag := True\<rparr>])\<rparr>"
  using assms by (auto simp: complete_def arr_get_def split: if_splits)

lemma produce_Some:
  assumes "produce g p i c st = Some st'"
  shows "c < length (infos st)" and "c < length g" and "(p, i) \<in> set (active st)"
    and "fixed_count (g ! c) = None" and "p \<in> set (dependencies (g ! c))"
    and "st' = st\<lparr>infos := (infos st)[c := (infos st ! c)\<lparr>sys_count := sys_count (infos st ! c) + 1\<rparr>]\<rparr>"
  using assms by (auto simp: produce_def arr_get_def split: if_splits option.splits)


lemma is_done_cong:
  assumes "length (infos st') = length (infos st)"
      and "\<And>d. d < length (infos st) \<Longrightarrow> completedFlag (infos st' ! d) = completedFlag (infos st ! d)"
  shows "is_done st' = is_done st"
  using assms by (auto simp: is_done_def fun_eq_iff)

lemma inv_start: "tg_inv g (start_epoch g)"
proof (rule tg_invI)
  show "length (infos (start_epoch g)) = length g" by (simp add: start_epoch_def)
next
  fix s assume s: "s < length g"
  have nd: "is_done (start_epoch g) d = False" for d
    by (simp add: is_done_def start_epoch_def)
  from s show "remainingDeps (infos (start_epoch g) ! s) =
      length (filter (\<lambda>d. \<not> is_done (start_epoch g) d) (dependencies (g ! s)))"
    unfolding nd by (simp add: start_epoch_def)
qed (simp_all add: start_epoch_def active_of_def)

lemma inv_dispatch:
  assumes inv: "tg_inv g st" and d: "dispatch s st = Some st'"
  shows "tg_inv g st'"
proof -
  note D = dispatch_Some[OF d]
  let ?k = "curOffset (infos st ! s)"
  have len: "length (infos st) = length g" using inv by (rule tg_inv_length)
  have i': "infos st' = (infos st)[s := (infos st ! s)\<lparr>curOffset := ?k + 1\<rparr>]"
    and a': "active st' = (s, ?k) # active st"
    and h': "history st' = history st @ [Begin s ?k]"
    unfolding D(4) by simp_all
  have dn: "is_done st' = is_done st"
    by (rule is_done_cong) (use D(1) in \<open>auto simp: i' nth_list_update\<close>)
  have ao: "active_of x st' = (if x = s then ?k # active_of x st else active_of x st)" for x
    by (simp add: active_of_def a')
  have n': "infos st' ! x = (if x = s then (infos st ! s)\<lparr>curOffset := ?k + 1\<rparr> else infos st ! x)" for x
    using D(1) by (simp add: i' nth_list_update)
  show ?thesis
  proof (rule tg_invI)
    show "length (infos st') = length g" by (simp add: i' len)
  next
    fix x assume x: "x < length g"
    note I = tg_invD[OF inv x]
    show "begun x (history st') = [0 ..< curOffset (infos st' ! x)]"
      using I(1) x by (auto simp: h' n' begun_append)
    show "mset (ended x (history st')) + mset (active_of x st') = mset [0 ..< curOffset (infos st' ! x)]"
      using I(2) x by (auto simp: h' n' ao ended_append simp del: mset_upt)
    show "numFinished (infos st' ! x) = length (ended x (history st'))"
      using I(3) x by (auto simp: h' n' ended_append)
    show "curOffset (infos st' ! x) \<le> sys_count (infos st' ! x)"
      using I(4) D(3) x by (auto simp: n')
    show "remainingDeps (infos st' ! x) =
        length (filter (\<lambda>d. \<not> is_done st' d) (dependencies (g ! x)))"
      using I(5) x unfolding dn by (auto simp: n')
    show "remainingDeps (infos st' ! x) = 0 \<and> numFinished (infos st' ! x) = sys_count (infos st' ! x)"
      if "completedFlag (infos st' ! x)"
      using I(6) that x by (auto simp: n' split: if_splits)
    show "curOffset (infos st' ! x) = 0" if "0 < remainingDeps (infos st' ! x)"
      using I(7) D(2) that x by (auto simp: n' split: if_splits)
    show "sys_count (infos st' ! x) = k" if "fixed_count (g ! x) = Some k" for k
      using I(8)[OF that] x by (auto simp: n')
  qed
qed

lemma inv_finish:
  assumes inv: "tg_inv g st" and d: "finish s i st = Some st'"
  shows "tg_inv g st'"
proof -
  note D = finish_Some[OF d]
  have len: "length (infos st) = length g" using inv by (rule tg_inv_length)
  have i': "infos st' = (infos st)[s := (infos st ! s)\<lparr>numFinished := numFinished (infos st ! s) + 1\<rparr>]"
    and h': "history st' = history st @ [End s i]"
    unfolding D(3) by simp_all
  have dn: "is_done st' = is_done st"
    by (rule is_done_cong) (use D(1) in \<open>auto simp: i' nth_list_update\<close>)
  have ao: "mset (active_of x st') =
      (if s = x then mset (active_of x st) - {#i#} else mset (active_of x st))" for x
    unfolding D(3) by (rule mset_active_of_remove1[OF D(2)])
  have im: "i \<in># mset (active_of s st)" using active_of_mem[OF D(2)] by simp
  have n': "infos st' ! x =
      (if x = s then (infos st ! s)\<lparr>numFinished := numFinished (infos st ! s) + 1\<rparr> else infos st ! x)" for x
    using D(1) by (simp add: i' nth_list_update)
  show ?thesis
  proof (rule tg_invI)
    show "length (infos st') = length g" by (simp add: i' len)
  next
    fix x assume x: "x < length g"
    note I = tg_invD[OF inv x]
    show "begun x (history st') = [0 ..< curOffset (infos st' ! x)]"
      using I(1) x by (auto simp: h' n' begun_append)
    show "mset (ended x (history st')) + mset (active_of x st') = mset [0 ..< curOffset (infos st' ! x)]"
    proof (cases "s = x")
      case True
      have "mset (ended x (history st')) + mset (active_of x st') =
            mset (ended x (history st)) + ({#i#} + (mset (active_of x st) - {#i#}))"
        using True by (simp add: h' ended_append ao)
      also have "{#i#} + (mset (active_of x st) - {#i#}) = mset (active_of x st)"
        using im True by simp
      finally show ?thesis using I(2) x True by (auto simp: n')
    next
      case False
      then show ?thesis using I(2) x by (auto simp: h' n' ao ended_append)
    qed
    show "numFinished (infos st' ! x) = length (ended x (history st'))"
      using I(3) x by (auto simp: h' n' ended_append)
    show "curOffset (infos st' ! x) \<le> sys_count (infos st' ! x)"
      using I(4) x by (auto simp: n')
    show "remainingDeps (infos st' ! x) =
        length (filter (\<lambda>d. \<not> is_done st' d) (dependencies (g ! x)))"
      using I(5) x unfolding dn by (auto simp: n')
    show "remainingDeps (infos st' ! x) = 0 \<and> numFinished (infos st' ! x) = sys_count (infos st' ! x)"
      if "completedFlag (infos st' ! x)"
    proof (cases "s = x")
      case True
      with that x have c: "completedFlag (infos st ! x)" by (auto simp: n')
      then have "is_done st x" using x by (simp add: is_done_def len)
      from done_quiet(3)[OF inv this] im True show ?thesis by simp
    next
      case False
      then show ?thesis using I(6) that x by (auto simp: n')
    qed
    show "curOffset (infos st' ! x) = 0" if "0 < remainingDeps (infos st' ! x)"
      using I(7) that x by (auto simp: n' split: if_splits)
    show "sys_count (infos st' ! x) = k" if "fixed_count (g ! x) = Some k" for k
      using I(8)[OF that] x by (auto simp: n')
  qed
qed

lemma inv_produce:
  assumes inv: "tg_inv g st" and d: "produce g p i c st = Some st'"
  shows "tg_inv g st'"
proof -
  note D = produce_Some[OF d]
  have len: "length (infos st) = length g" using inv by (rule tg_inv_length)
  have i': "infos st' = (infos st)[c := (infos st ! c)\<lparr>sys_count := sys_count (infos st ! c) + 1\<rparr>]"
    and a': "active st' = active st" and h': "history st' = history st"
    unfolding D(6) by simp_all
  have dn: "is_done st' = is_done st"
    by (rule is_done_cong) (use D(1) in \<open>auto simp: i' nth_list_update\<close>)
  have ao: "active_of x st' = active_of x st" for x
    by (simp add: active_of_def a')
  have n': "infos st' ! x =
      (if x = c then (infos st ! c)\<lparr>sys_count := sys_count (infos st ! c) + 1\<rparr> else infos st ! x)" for x
    using D(1) by (simp add: i' nth_list_update)
  have notdone: "\<not> is_done st c"
  proof
    assume dc: "is_done st c"
    from ready_deps_done[OF inv D(2) done_quiet(4)[OF inv dc] D(5)] have "is_done st p" .
    from done_quiet(3)[OF inv this] active_of_mem[OF D(3)] show False by simp
  qed
  show ?thesis
  proof (rule tg_invI)
    show "length (infos st') = length g" by (simp add: i' len)
  next
    fix x assume x: "x < length g"
    note I = tg_invD[OF inv x]
    show "begun x (history st') = [0 ..< curOffset (infos st' ! x)]"
      using I(1) x by (auto simp: h' n')
    show "mset (ended x (history st')) + mset (active_of x st') = mset [0 ..< curOffset (infos st' ! x)]"
      using I(2) x by (auto simp: h' n' ao)
    show "numFinished (infos st' ! x) = length (ended x (history st'))"
      using I(3) x by (auto simp: h' n')
    show "curOffset (infos st' ! x) \<le> sys_count (infos st' ! x)"
      using I(4) x by (auto simp: n')
    show "remainingDeps (infos st' ! x) =
        length (filter (\<lambda>d. \<not> is_done st' d) (dependencies (g ! x)))"
      using I(5) x unfolding dn by (auto simp: n')
    show "remainingDeps (infos st' ! x) = 0 \<and> numFinished (infos st' ! x) = sys_count (infos st' ! x)"
      if "completedFlag (infos st' ! x)"
    proof (cases "c = x")
      case True
      with that x have "is_done st c" by (auto simp: n' len is_done_def)
      with notdone show ?thesis by simp
    next
      case False
      then show ?thesis using I(6) that x by (auto simp: n')
    qed
    show "curOffset (infos st' ! x) = 0" if "0 < remainingDeps (infos st' ! x)"
      using I(7) that x by (auto simp: n' split: if_splits)
    show "sys_count (infos st' ! x) = k" if "fixed_count (g ! x) = Some k" for k
      using I(8)[OF that] x D(4) that by (cases "c = x") (simp_all add: n')
  qed
qed


lemma filter_count_diff:
  assumes "\<not> P s"
  shows "length (filter (\<lambda>d. \<not> (P d \<or> d = s)) xs) + count_list xs s = length (filter (\<lambda>d. \<not> P d) xs)"
  using assms by (induction xs) auto

lemma notify_length: "length xs = length g \<Longrightarrow> length (notify g s xs) = length g"
  by (simp add: notify_def)

lemma notify_nth:
  "length xs = length g \<Longrightarrow> x < length g \<Longrightarrow>
   notify g s xs ! x = (xs ! x)\<lparr>remainingDeps := remainingDeps (xs ! x) - count_list (dependencies (g ! x)) s\<rparr>"
  by (simp add: notify_def)

lemma inv_complete:
  assumes inv: "tg_inv g st" and d: "complete g s st = Some st'"
  shows "tg_inv g st'"
proof -
  note D = complete_Some[OF d]
  have len: "length (infos st) = length g" using inv by (rule tg_inv_length)
  have sg: "s < length g" using D(1) len by simp
  let ?xs = "(infos st)[s := (infos st ! s)\<lparr>completedFlag := True\<rparr>]"
  have i': "infos st' = notify g s ?xs"
    and a': "active st' = active st" and h': "history st' = history st"
    unfolding D(5) by simp_all
  have lx: "length ?xs = length g" using len by simp
  have len': "length (infos st') = length g"
    unfolding i' by (rule notify_length[OF lx])
  have n': "infos st' ! x =
      (if x = s then (infos st ! s)\<lparr>completedFlag := True,
                       remainingDeps := remainingDeps (infos st ! s) - count_list (dependencies (g ! s)) s\<rparr>
       else (infos st ! x)\<lparr>remainingDeps := remainingDeps (infos st ! x) - count_list (dependencies (g ! x)) s\<rparr>)"
    if "x < length g" for x
    unfolding i' notify_nth[OF lx that] using D(1) by (simp add: nth_list_update)
  have nds: "\<not> is_done st s" using D(3) by (simp add: is_done_def)
  have dn: "is_done st' d = (is_done st d \<or> d = s)" for d
  proof (cases "d < length g")
    case True
    then show ?thesis using sg by (auto simp: is_done_def len len' n')
  next
    case False
    then show ?thesis using sg by (auto simp: is_done_def len len')
  qed
  have ao: "active_of x st' = active_of x st" for x
    by (simp add: active_of_def a')
  show ?thesis
  proof (rule tg_invI)
    show "length (infos st') = length g" by (rule len')
  next
    fix x assume x: "x < length g"
    note I = tg_invD[OF inv x]
    note nx = n'[OF x]
    show "begun x (history st') = [0 ..< curOffset (infos st' ! x)]"
      using I(1) by (auto simp: h' nx)
    show "mset (ended x (history st')) + mset (active_of x st') = mset [0 ..< curOffset (infos st' ! x)]"
      using I(2) by (auto simp: h' nx ao)
    show "numFinished (infos st' ! x) = length (ended x (history st'))"
      using I(3) by (auto simp: h' nx)
    show "curOffset (infos st' ! x) \<le> sys_count (infos st' ! x)"
      using I(4) by (auto simp: nx)
    show "remainingDeps (infos st' ! x) =
        length (filter (\<lambda>d. \<not> is_done st' d) (dependencies (g ! x)))"
    proof -
      have "remainingDeps (infos st' ! x) =
            remainingDeps (infos st ! x) - count_list (dependencies (g ! x)) s"
        by (auto simp: nx)
      also have "\<dots> = length (filter (\<lambda>d. \<not> is_done st d) (dependencies (g ! x))) -
            count_list (dependencies (g ! x)) s"
        unfolding I(5) ..
      also have "\<dots> = length (filter (\<lambda>d. \<not> (is_done st d \<or> d = s)) (dependencies (g ! x)))"
        using filter_count_diff[of "is_done st" s "dependencies (g ! x)", OF nds] by simp
      finally show ?thesis unfolding dn .
    qed
    show "remainingDeps (infos st' ! x) = 0 \<and> numFinished (infos st' ! x) = sys_count (infos st' ! x)"
      if "completedFlag (infos st' ! x)"
      using I(6) D(2,4) that by (auto simp: nx split: if_splits)
    show "curOffset (infos st' ! x) = 0" if "0 < remainingDeps (infos st' ! x)"
      using I(7) that by (auto simp: nx split: if_splits)
    show "sys_count (infos st' ! x) = k" if "fixed_count (g ! x) = Some k" for k
      using I(8)[OF that] by (auto simp: nx)
  qed
qed

lemma inv_apply:
  assumes "tg_inv g st" and "apply_action g a st = Some st'"
  shows "tg_inv g st'"
  using assms
  by (cases a) (auto intro: inv_dispatch inv_finish inv_complete inv_produce)

subsection \<open>The order along an edge\<close>

lemma snoc_split:
  assumes "h @ [e] = before @ x # after"
  shows "(after = [] \<and> before = h \<and> x = e) \<or> (\<exists>a0. after = a0 @ [e] \<and> h = before @ x # a0)"
proof (cases after rule: rev_cases)
  case Nil
  with assms show ?thesis by simp
next
  case (snoc a0 y)
  with assms have "h @ [e] = (before @ x # a0) @ [y]" by simp
  then have "h = before @ x # a0" and "y = e" by simp_all
  with snoc show ?thesis by simp
qed

lemma begun_split_ready:
  assumes inv: "tg_inv g st" and s2: "s2 < length g" and s1: "s1 \<in> set (dependencies (g ! s2))"
      and h: "history st = before @ Begin s2 j # after"
  shows "is_done st s1"
proof -
  from h have "Begin s2 j \<in> set (history st)" by simp
  from ready_deps_done[OF inv s2 begun_ready[OF inv s2 this] s1] show ?thesis .
qed

lemma ordered_same:
  assumes inv: "tg_inv g st" and ord: "all_ordered g st"
      and h': "history st' = history st"
      and cnt: "\<And>x. is_done st x \<Longrightarrow> sys_count (infos st' ! x) = sys_count (infos st ! x)"
  shows "all_ordered g st'"
  unfolding all_ordered_def edge_ordered_def
proof (intro allI impI ballI)
  fix s2 s1 before j after
  assume s2: "s2 < length g" and s1: "s1 \<in> set (dependencies (g ! s2))"
    and h: "history st' = before @ Begin s2 j # after"
  from h h' have hs: "history st = before @ Begin s2 j # after" by simp
  from cnt[OF begun_split_ready[OF inv s2 s1 hs]]
  have c: "sys_count (infos st' ! s1) = sys_count (infos st ! s1)" .
  from ord s2 s1 hs show "begun s1 before = [0 ..< sys_count (infos st' ! s1)] \<and>
        mset (ended s1 before) = mset [0 ..< sys_count (infos st' ! s1)] \<and>
        begun s1 after = [] \<and> ended s1 after = []"
    unfolding all_ordered_def edge_ordered_def c by blast
qed

lemma ordered_extend:
  assumes inv: "tg_inv g st" and ord: "all_ordered g st"
      and h': "history st' = history st @ [e]"
      and cnt: "\<And>x. x < length g \<Longrightarrow> sys_count (infos st' ! x) = sys_count (infos st ! x)"
      and eb: "\<And>s k. e = Begin s k \<Longrightarrow>
                 remainingDeps (infos st ! s) = 0 \<and> curOffset (infos st ! s) < sys_count (infos st ! s)"
      and ee: "\<And>s i. e = End s i \<Longrightarrow> (s, i) \<in> set (active st)"
  shows "all_ordered g st'"
  unfolding all_ordered_def edge_ordered_def
proof (intro allI impI ballI)
  fix s2 s1 before j after
  assume s2: "s2 < length g" and s1: "s1 \<in> set (dependencies (g ! s2))"
    and h: "history st' = before @ Begin s2 j # after"
  from h h' have "history st @ [e] = before @ Begin s2 j # after" by simp
  from snoc_split[OF this] consider
    (new) "after = []" "before = history st" "e = Begin s2 j"
  | (old) a0 where "after = a0 @ [e]" "history st = before @ Begin s2 j # a0"
    by blast
  then show "begun s1 before = [0 ..< sys_count (infos st' ! s1)] \<and>
        mset (ended s1 before) = mset [0 ..< sys_count (infos st' ! s1)] \<and>
        begun s1 after = [] \<and> ended s1 after = []"
  proof cases
    case new
    from eb[OF new(3)] have r: "remainingDeps (infos st ! s2) = 0" by simp
    from ready_deps_done[OF inv s2 r s1] have d1: "is_done st s1" .
    note Q = done_quiet[OF inv d1]
    from tg_invD(1)[OF inv Q(1)] Q(2) have "begun s1 (history st) = [0 ..< sys_count (infos st ! s1)]"
      by simp
    with Q(5) show ?thesis unfolding new(1,2) cnt[OF Q(1)] by simp
  next
    case old
    from begun_split_ready[OF inv s2 s1 old(2)] have d1: "is_done st s1" .
    note Q = done_quiet[OF inv d1]
    from ord s2 s1 old(2) have O: "begun s1 before = [0 ..< sys_count (infos st ! s1)]"
      "mset (ended s1 before) = mset [0 ..< sys_count (infos st ! s1)]"
      "begun s1 a0 = []" "ended s1 a0 = []"
      unfolding all_ordered_def edge_ordered_def by blast+
    have b: "begun s1 [e] = []"
    proof (cases e)
      case (Begin s k)
      from eb[OF Begin] Q(2) have "s \<noteq> s1" by auto
      with Begin show ?thesis by simp
    next
      case (End s i)
      then show ?thesis by simp
    qed
    have en: "ended s1 [e] = []"
    proof (cases e)
      case (Begin s k)
      then show ?thesis by simp
    next
      case (End s i)
      from active_of_mem[OF ee[OF End]] Q(3) have "s \<noteq> s1" by auto
      with End show ?thesis by simp
    qed
    from O b en show ?thesis
      unfolding old(1) cnt[OF Q(1)] by (simp add: begun_append ended_append)
  qed
qed

lemma ordered_start: "all_ordered g (start_epoch g)"
  by (simp add: all_ordered_def edge_ordered_def start_epoch_def)

lemma ordered_apply:
  assumes inv: "tg_inv g st" and ord: "all_ordered g st" and a: "apply_action g a st = Some st'"
  shows "all_ordered g st'"
proof (cases a)
  case (Dispatch s)
  with a have d: "dispatch s st = Some st'" by simp
  note D = dispatch_Some[OF d]
  show ?thesis
  proof (rule ordered_extend[OF inv ord, where e = "Begin s (curOffset (infos st ! s))"])
    show "history st' = history st @ [Begin s (curOffset (infos st ! s))]"
      unfolding D(4) by simp
    show "sys_count (infos st' ! x) = sys_count (infos st ! x)" for x
      unfolding D(4) using D(1) by (simp add: nth_list_update)
    show "remainingDeps (infos st ! s') = 0 \<and> curOffset (infos st ! s') < sys_count (infos st ! s')"
      if "Begin s (curOffset (infos st ! s)) = Begin s' k" for s' k
      using that D(2,3) by simp
  qed simp
next
  case (Finish s i)
  with a have d: "finish s i st = Some st'" by simp
  note D = finish_Some[OF d]
  show ?thesis
  proof (rule ordered_extend[OF inv ord, where e = "End s i"])
    show "history st' = history st @ [End s i]"
      unfolding D(3) by simp
    show "sys_count (infos st' ! x) = sys_count (infos st ! x)" for x
      unfolding D(3) using D(1) by (simp add: nth_list_update)
    show "(s', i') \<in> set (active st)" if "End s i = End s' i'" for s' i'
      using that D(2) by simp
  qed simp
next
  case (Complete s)
  with a have d: "complete g s st = Some st'" by simp
  note D = complete_Some[OF d]
  have len: "length (infos st) = length g" using inv by (rule tg_inv_length)
  show ?thesis
  proof (rule ordered_same[OF inv ord])
    show "history st' = history st" unfolding D(5) by simp
    show "sys_count (infos st' ! x) = sys_count (infos st ! x)" if "is_done st x" for x
    proof -
      from that have x: "x < length g" by (simp add: is_done_def len)
      have lx: "length ((infos st)[s := (infos st ! s)\<lparr>completedFlag := True\<rparr>]) = length g"
        using len by simp
      show ?thesis
        unfolding D(5) using D(1) by (simp add: notify_nth[OF lx x] nth_list_update)
    qed
  qed
next
  case (Produce p i c)
  with a have d: "produce g p i c st = Some st'" by simp
  note D = produce_Some[OF d]
  have notdone: "\<not> is_done st c"
  proof
    assume dc: "is_done st c"
    from ready_deps_done[OF inv D(2) done_quiet(4)[OF inv dc] D(5)] have "is_done st p" .
    from done_quiet(3)[OF inv this] active_of_mem[OF D(3)] show False by simp
  qed
  show ?thesis
  proof (rule ordered_same[OF inv ord])
    show "history st' = history st" unfolding D(6) by simp
    show "sys_count (infos st' ! x) = sys_count (infos st ! x)" if "is_done st x" for x
    proof -
      from that notdone have "x \<noteq> c" by auto
      then show ?thesis unfolding D(6) by simp
    qed
  qed
qed

lemma exec_inv:
  assumes "tg_inv g st \<and> all_ordered g st" and "exec g acts st = Some st'"
  shows "tg_inv g st' \<and> all_ordered g st'"
  using assms
proof (induction acts arbitrary: st)
  case Nil
  then show ?case by simp
next
  case (Cons a acts)
  from Cons.prems(2) obtain st1 where
    a: "apply_action g a st = Some st1" and r: "exec g acts st1 = Some st'"
    by (cases "apply_action g a st") simp_all
  from Cons.prems(1) a have "tg_inv g st1 \<and> all_ordered g st1"
    using inv_apply ordered_apply by blast
  from Cons.IH[OF this r] show ?case .
qed

lemma run_inv:
  assumes "run g sched = Some st"
  shows "tg_inv g st" and "all_ordered g st"
  using exec_inv[of g "start_epoch g" sched st] assms inv_start ordered_start
  by (simp_all add: run_def)


text \<open>
  Claim C2. In every epoch, under every schedule: if System \<open>s2\<close> depends on System
  \<open>s1\<close>, then at the moment any invocation of \<open>s2\<close> begins, \<open>s1\<close> has begun and ended
  every one of its invocations (as many as its invocation counter says), and no
  invocation of \<open>s1\<close> begins or ends after that moment.
\<close>

theorem dependency_order:
  assumes "run g sched = Some st"
      and "s2 < length g" and "s1 \<in> set (dependencies (g ! s2))"
      and "history st = before @ Begin s2 j # after"
  shows "begun s1 before = [0 ..< sys_count (infos st ! s1)] \<and>
         mset (ended s1 before) = mset [0 ..< sys_count (infos st ! s1)] \<and>
         begun s1 after = [] \<and> ended s1 after = []"
  using run_inv(2)[OF assms(1)] assms(2-4)
  unfolding all_ordered_def edge_ordered_def by blast

theorem dependency_order_witness:
  "run example_graph example_schedule = Some example_final \<and>
   history example_final = example_before @ Begin 3 0 # [End 3 0] \<and>
   begun 2 example_before = [0, 1] \<and>
   mset (ended 2 example_before) = mset [0, 1] \<and>
   begun 2 [End 3 0] = [] \<and> ended 2 [End 3 0] = [] \<and>
   run example_graph [Dispatch 0, Dispatch 1] = None"
proof -
  have r: "run example_graph example_schedule = Some example_final" by code_simp
  have s2: "3 < length example_graph" by code_simp
  have s1: "2 \<in> set (dependencies (example_graph ! 3))" by code_simp
  have h: "history example_final = example_before @ Begin 3 0 # [End 3 0]" by code_simp
  have c: "[0 ..< sys_count (infos example_final ! 2)] = [0, 1]" by code_simp
  have n: "run example_graph [Dispatch 0, Dispatch 1] = None" by code_simp
  from dependency_order[OF r s2 s1 h] r h n show ?thesis unfolding c by simp
qed

lemma completed_system_ran:
  assumes r: "run g sched = Some st" and s: "s < length g" and c: "completedFlag (infos st ! s)"
  shows "begun s (history st) = [0 ..< sys_count (infos st ! s)]"
    and "mset (ended s (history st)) = mset [0 ..< sys_count (infos st ! s)]"
proof -
  note inv = run_inv(1)[OF r]
  from s c inv have d: "is_done st s" by (simp add: is_done_def tg_inv_length)
  note Q = done_quiet[OF inv d]
  from tg_invD(1)[OF inv s] Q(2) show "begun s (history st) = [0 ..< sys_count (infos st ! s)]"
    by simp
  from Q(5) show "mset (ended s (history st)) = mset [0 ..< sys_count (infos st ! s)]" .
qed

text \<open>
  Claim C4. When an epoch is over, a System registered with the fixed count \<open>K\<close> has
  begun exactly the invocations \<open>0, ..., K - 1\<close>, each once (in this order of
  claiming), and exactly these have ended, each once.
\<close>

theorem fixed_count_invocations:
  assumes "run g sched = Some st" and "epoch_complete st"
      and "s < length g" and "fixed_count (g ! s) = Some K"
  shows "begun s (history st) = [0 ..< K] \<and> mset (ended s (history st)) = mset [0 ..< K]"
proof -
  note inv = run_inv(1)[OF assms(1)]
  from assms(2,3) inv have c: "completedFlag (infos st ! s)"
    by (simp add: epoch_complete_def list_all_length tg_inv_length)
  from tg_invD(8)[OF inv assms(3,4)] have k: "sys_count (infos st ! s) = K" .
  from completed_system_ran[OF assms(1,3) c] show ?thesis unfolding k by blast
qed

theorem fixed_count_invocations_witness:
  "run example_graph example_schedule = Some example_final \<and>
   epoch_complete example_final \<and>
   fixed_count (example_graph ! 1) = Some 4 \<and>
   begun 1 (history example_final) = [0, 1, 2, 3] \<and>
   mset (ended 1 (history example_final)) = mset [0, 1, 2, 3]"
proof -
  have r: "run example_graph example_schedule = Some example_final" by code_simp
  have e: "epoch_complete example_final" by code_simp
  have s: "1 < length example_graph" by code_simp
  have f: "fixed_count (example_graph ! 1) = Some 4" by code_simp
  have u: "[0 ..< 4] = [0, 1, 2, 3 :: nat]" by code_simp
  from fixed_count_invocations[OF r e s f] r e f show ?thesis unfolding u by simp
qed

subsection \<open>An epoch can always go on\<close>

lemma registerSystem_well_formed:
  assumes "well_formed g" and "registerSystem g cnt deps = Inr (sid, g')"
  shows "well_formed g' \<and> sid = length g \<and> length g' = Suc (length g)"
proof -
  from assms(2) have a: "list_all (\<lambda>d. d < length g) deps"
    and g': "g' = g @ [\<lparr>fixed_count = cnt, dependencies = deps\<rparr>]" and i: "sid = length g"
    by (auto simp: registerSystem_def split: if_splits)
  have "well_formed g'"
    unfolding well_formed_def g'
  proof (intro allI impI ballI)
    fix s d assume s: "s < length (g @ [\<lparr>fixed_count = cnt, dependencies = deps\<rparr>])"
      and d: "d \<in> set (dependencies ((g @ [\<lparr>fixed_count = cnt, dependencies = deps\<rparr>]) ! s))"
    show "d < s"
    proof (cases "s < length g")
      case True
      with d assms(1) show ?thesis by (simp add: nth_append well_formed_def)
    next
      case False
      with s have "s = length g" by simp
      with d a show ?thesis by (simp add: list_all_iff)
    qed
  qed
  with g' i show ?thesis by simp
qed

lemma no_deadlock:
  assumes r: "run g sched = Some st" and wf: "well_formed g" and n: "\<not> epoch_complete st"
  shows "\<exists>a st'. apply_action g a st = Some st'"
proof -
  note inv = run_inv(1)[OF r]
  have len: "length (infos st) = length g" using inv by (rule tg_inv_length)
  from n obtain s0 where "s0 < length g" "\<not> completedFlag (infos st ! s0)"
    by (auto simp: epoch_complete_def list_all_length len)
  then have ex: "\<exists>s. s < length g \<and> \<not> completedFlag (infos st ! s)" by blast
  define s where "s = (LEAST s. s < length g \<and> \<not> completedFlag (infos st ! s))"
  from LeastI_ex[OF ex] have s: "s < length g" and nc: "\<not> completedFlag (infos st ! s)"
    unfolding s_def by blast+
  have earlier: "d < s \<Longrightarrow> is_done st d" for d
  proof -
    assume d: "d < s"
    from not_less_Least[of d "\<lambda>s. s < length g \<and> \<not> completedFlag (infos st ! s)"] d
    have "\<not> (d < length g \<and> \<not> completedFlag (infos st ! d))" unfolding s_def by blast
    with d s show "is_done st d" by (simp add: is_done_def len)
  qed
  have "filter (\<lambda>d. \<not> is_done st d) (dependencies (g ! s)) = []"
    using wf s earlier by (auto simp: filter_empty_conv well_formed_def)
  with tg_invD(5)[OF inv s] have rd: "remainingDeps (infos st ! s) = 0" by simp
  have sl: "arr_get (infos st) s = Some (infos st ! s)" using s len by (simp add: arr_get_def)
  show ?thesis
  proof (cases "curOffset (infos st ! s) < sys_count (infos st ! s)")
    case True
    with rd sl have "\<exists>st'. apply_action g (Dispatch s) st = Some st'"
      by (simp add: dispatch_def)
    then show ?thesis by blast
  next
    case False
    with tg_invD(4)[OF inv s] have co: "curOffset (infos st ! s) = sys_count (infos st ! s)" by simp
    show ?thesis
    proof (cases "active_of s st")
      case Nil
      from tg_invD(2)[OF inv s] Nil have "mset (ended s (history st)) = mset [0 ..< curOffset (infos st ! s)]"
        by simp
      then have "size (mset (ended s (history st))) = size (mset [0 ..< curOffset (infos st ! s)])"
        by simp
      then have "length (ended s (history st)) = curOffset (infos st ! s)" by simp
      with tg_invD(3)[OF inv s] co have "numFinished (infos st ! s) = sys_count (infos st ! s)" by simp
      with rd nc sl have "\<exists>st'. apply_action g (Complete s) st = Some st'"
        by (simp add: complete_def)
      then show ?thesis by blast
    next
      case (Cons i rest)
      then have "i \<in> set (active_of s st)" by simp
      then have "(s, i) \<in> set (active st)" by (auto simp: active_of_def)
      with sl have "\<exists>st'. apply_action g (Finish s i) st = Some st'"
        by (simp add: finish_def)
      then show ?thesis by blast
    qed
  qed
qed

end
